theory Spec2Isabelle
  imports Main
begin

section \<open>Strings and characters\<close>

text \<open>
  A Python \<open>str\<close> is a sequence of Unicode code points; it is modelled as the list of
  these, each a natural number (\<open>ord\<close> of the character). \<open>str\<close> gives the code points
  of a text written in ASCII. The characters that the patterns of \<open>DtbReader\<close> name
  have names here too.
\<close>

type_synonym ustr = "nat list"

definition str :: "string \<Rightarrow> ustr" where
  "str s = map of_char s"

abbreviation TAB :: nat where "TAB \<equiv> 9"
abbreviation NL :: nat where "NL \<equiv> 10"
abbreviation SP :: nat where "SP \<equiv> 32"
abbreviation COMMA :: nat where "COMMA \<equiv> 44"
abbreviation DASH :: nat where "DASH \<equiv> 45"
abbreviation DOT :: nat where "DOT \<equiv> 46"

text \<open>
  The class \<open>\d\<close> of a pattern on a \<open>str\<close>, compiled without the \<open>ASCII\<close> flag as the
  patterns of \<open>DtbReader\<close> are, is the decimal digits of Unicode (the category Nd):
  the digits \<open>0\<close> to \<open>9\<close> and the decimal digits of the other scripts. They come in
  runs of ten code points, the digit zero first; \<open>decimal_zeros\<close> lists the zeros of
  the runs. The table is that of the Unicode database of the interpreter and grows with
  it; this is the table of Unicode 14.0, the version of CPython 3.11.
\<close>

definition decimal_zeros :: "nat list" where
  "decimal_zeros =
     [0x30, 0x660, 0x6F0, 0x7C0, 0x966, 0x9E6, 0xA66, 0xAE6, 0xB66, 0xBE6, 0xC66, 0xCE6,
      0xD66, 0xDE6, 0xE50, 0xED0, 0xF20, 0x1040, 0x1090, 0x17E0, 0x1810, 0x1946, 0x19D0,
      0x1A80, 0x1A90, 0x1B50, 0x1BB0, 0x1C40, 0x1C50, 0xA620, 0xA8D0, 0xA900, 0xA9D0,
      0xA9F0, 0xAA50, 0xABF0, 0xFF10, 0x104A0, 0x10D30, 0x11066, 0x110F0, 0x11136,
      0x111D0, 0x112F0, 0x11450, 0x114D0, 0x11650, 0x116C0, 0x11730, 0x118E0, 0x11950,
      0x11C50, 0x11D50, 0x11DA0, 0x16A60, 0x16AC0, 0x16B50, 0x1D7CE, 0x1D7D8, 0x1D7E2,
      0x1D7EC, 0x1D7F6, 0x1E140, 0x1E2F0, 0x1E950, 0x1FBF0]"

definition is_digit :: "nat \<Rightarrow> bool" where
  "is_digit c = list_ex (\<lambda>zero. zero \<le> c \<and> c < zero + 10) decimal_zeros"

section \<open>The pattern language of the reader\<close>

text \<open>
  The six patterns of \<open>DtbReader\<close> are written in the part of Python's \<open>re\<close> syntax that
  they use: the anchors \<open>^\<close> and \<open>$\<close>, single characters (a literal, the dot, \<open>\d\<close>, a set
  \<open>[...]\<close> or a negated set \<open>[^...]\<close>), the greedy repetitions \<open>*\<close> and \<open>+\<close> of a single
  character, the greedy option \<open>?\<close>, concatenation, and groups, plain or named.
\<close>

datatype citem = Ch nat | Dig

datatype atom = Lit nat | Dot | Digit | CSet "citem list" | NSet "citem list"

datatype regex =
    Eps
  | Bol
  | Eol
  | Atom atom
  | Star atom
  | Plus atom
  | Opt regex
  | Seq regex regex
  | Grp regex
  | Named string regex

fun item_ok :: "citem \<Rightarrow> nat \<Rightarrow> bool" where
  "item_ok (Ch c) x = (x = c)"
| "item_ok Dig x = is_digit x"

fun atom_ok :: "atom \<Rightarrow> nat \<Rightarrow> bool" where
  "atom_ok (Lit c) x = (x = c)"
| "atom_ok Dot x = (x \<noteq> NL)"
| "atom_ok Digit x = is_digit x"
| "atom_ok (CSet its) x = list_ex (\<lambda>i. item_ok i x) its"
| "atom_ok (NSet its) x = (\<not> list_ex (\<lambda>i. item_ok i x) its)"

text \<open>
  A matcher state: the position in the line, the text still to be read, and the named
  groups captured so far (the latest capture of a name first).
\<close>

record mstate =
  pos :: nat
  rest :: ustr
  caps :: "(string \<times> ustr) list"

text \<open>
  \<open>many a p s cp\<close> is the greedy repetition of the single character \<open>a\<close> from position
  \<open>p\<close> on the text \<open>s\<close>: the states after each possible number of repetitions, the
  longest first, as the backtracking matcher tries them.
\<close>

fun many :: "atom \<Rightarrow> nat \<Rightarrow> ustr \<Rightarrow> (string \<times> ustr) list \<Rightarrow> mstate list" where
  "many a p [] cp = [\<lparr>pos = p, rest = [], caps = cp\<rparr>]"
| "many a p (c # cs) cp =
     (if atom_ok a c then many a (Suc p) cs cp else []) @ [\<lparr>pos = p, rest = c # cs, caps = cp\<rparr>]"

text \<open>\<open>one a st\<close> reads the single character \<open>a\<close>, when the text starts with one.\<close>

definition one :: "atom \<Rightarrow> mstate \<Rightarrow> mstate list" where
  "one a st =
     (case rest st of
        [] \<Rightarrow> []
      | c # cs \<Rightarrow> if atom_ok a c then [\<lparr>pos = Suc (pos st), rest = cs, caps = caps st\<rparr>] else [])"

text \<open>
  \<open>runs r st\<close> lists the states in which the backtracking matcher of \<open>re\<close> can leave the
  pattern \<open>r\<close> entered in state \<open>st\<close>, in the order in which it tries them: a greedy
  construct offers the longer alternative first, a concatenation tries every way of
  continuing an earlier alternative before it turns to a later one. \<open>$\<close> holds at the end
  of the text and before a newline that ends the text (no \<open>MULTILINE\<close> flag is set); a
  named group records the text read between its entry and its exit.
\<close>

fun runs :: "regex \<Rightarrow> mstate \<Rightarrow> mstate list" where
  "runs Eps st = [st]"
| "runs Bol st = (if pos st = 0 then [st] else [])"
| "runs Eol st = (if rest st = [] \<or> rest st = [NL] then [st] else [])"
| "runs (Atom a) st = one a st"
| "runs (Star a) st = many a (pos st) (rest st) (caps st)"
| "runs (Plus a) st = concat (map (\<lambda>st'. many a (pos st') (rest st') (caps st')) (one a st))"
| "runs (Opt r) st = runs r st @ [st]"
| "runs (Seq r1 r2) st = concat (map (runs r2) (runs r1 st))"
| "runs (Grp r) st = runs r st"
| "runs (Named n r) st =
     map (\<lambda>st'. st'\<lparr>caps := (n, take (pos st' - pos st) (rest st)) # caps st'\<rparr>) (runs r st)"

fun seqs :: "regex list \<Rightarrow> regex" where
  "seqs [] = Eps"
| "seqs [r] = r"
| "seqs (r # rs) = Seq r (seqs rs)"

text \<open>
  \<open>Pattern.fullmatch\<close>: the first way of matching, in the matcher's order, that reads
  the whole line; the result is the match object, here its named groups, or \<open>None\<close>.
  \<open>group m n\<close> is \<open>m.group(n)\<close>: \<open>None\<close> for a group that took no part in the match.
\<close>

definition fullmatch :: "regex \<Rightarrow> ustr \<Rightarrow> (string \<times> ustr) list option" where
  "fullmatch r line =
     map_option caps (find (\<lambda>st. rest st = []) (runs r \<lparr>pos = 0, rest = line, caps = []\<rparr>))"

definition group :: "(string \<times> ustr) list \<Rightarrow> string \<Rightarrow> ustr option" where
  "group m n = map_of m n"

section \<open>The patterns of \<open>DtbReader\<close>\<close>

definition GROUP_RE_STRICT :: regex where
  "GROUP_RE_STRICT = seqs
     [Bol, Opt (Grp (Seq (Named ''name'' (Star (NSet [Ch TAB]))) (Atom (Lit SP)))),
      Atom (Lit DASH), Atom (Lit SP),
      Opt (Named ''note'' (Plus Dot)), Atom (Lit NL), Eol]"

definition GROUP_RE_LOOSE :: regex where
  "GROUP_RE_LOOSE = seqs
     [Bol, Opt (Grp (Seq (Named ''name'' (Star (NSet [Ch TAB]))) (Atom (Lit SP)))),
      Atom (Lit DASH), Opt (Atom (Lit SP)),
      Opt (Named ''note'' (Plus Dot)), Atom (Lit NL), Eol]"

definition TEAM_RE_STRICT :: regex where
  "TEAM_RE_STRICT = seqs
     [Bol, Atom (Lit TAB),
      Opt (Grp (Seq (Named ''name'' (Star (NSet [Ch TAB]))) (Atom (Lit SP)))),
      Atom (Lit DASH), Atom (Lit SP),
      Opt (Named ''note'' (Plus Dot)), Atom (Lit NL), Eol]"

definition TEAM_RE_LOOSE :: regex where
  "TEAM_RE_LOOSE = seqs
     [Bol, Atom (Lit TAB),
      Opt (Grp (Seq (Named ''name'' (Star (NSet [Ch TAB]))) (Atom (Lit SP)))),
      Atom (Lit DASH), Opt (Atom (Lit SP)),
      Opt (Named ''note'' (Plus Dot)), Atom (Lit NL), Eol]"

definition PLAYER_RE_STRICT :: regex where
  "PLAYER_RE_STRICT = seqs
     [Bol, Atom (Lit TAB), Atom (Lit TAB),
      Opt (Grp (Seq (Named ''registration_number'' (Star Digit)) (Atom (Lit SP)))),
      Atom (Lit DASH), Atom (Lit SP),
      Opt (Named ''surname'' (Plus (NSet [Ch SP, Ch COMMA]))), Atom (Lit SP),
      Opt (Named ''name'' (Plus (NSet [Ch COMMA]))), Atom (Lit COMMA), Atom (Lit SP),
      Opt (Named ''date_of_birth'' (Plus (CSet [Dig, Ch DOT]))),
      Plus (Lit SP), Atom (Lit COMMA), Atom (Lit SP),
      Opt (Named ''note'' (Plus Dot)), Atom (Lit NL), Eol]"

definition PLAYER_RE_LOOSE :: regex where
  "PLAYER_RE_LOOSE = seqs
     [Bol, Atom (Lit TAB), Atom (Lit TAB),
      Opt (Grp (Seq (Named ''registration_number'' (Star Digit)) (Atom (Lit SP)))),
      Atom (Lit DASH), Atom (Lit SP),
      Opt (Named ''surname'' (Plus (NSet [Ch SP, Ch COMMA]))), Atom (Lit SP),
      Opt (Named ''name'' (Plus (NSet [Ch COMMA]))),
      Opt (Atom (Lit COMMA)), Opt (Atom (Lit SP)),
      Opt (Named ''date_of_birth'' (Plus (CSet [Dig, Ch DOT]))),
      Plus (Lit SP), Opt (Atom (Lit COMMA)), Opt (Atom (Lit SP)),
      Opt (Named ''note'' (Plus Dot)), Atom (Lit NL), Eol]"

section \<open>The entities and their rows\<close>

text \<open>
  The classes \<open>Group\<close>, \<open>Team\<close> and \<open>Player\<close>. A field holds what \<open>Match.group\<close>
  returned: a text, or \<open>None\<close> for a group of the pattern that took no part.
\<close>

record Group =
  g_name :: "ustr option"
  g_note :: "ustr option"

record Team =
  t_name :: "ustr option"
  t_note :: "ustr option"
  t_group :: Group

record Player =
  registration_number :: "ustr option"
  p_name :: "ustr option"
  surname :: "ustr option"
  date_of_birth :: "ustr option"
  p_note :: "ustr option"
  team :: Team

datatype entity = EGroup Group | ETeam Team | EPlayer Player

definition Group_to_list :: "Group \<Rightarrow> ustr option list" where
  "Group_to_list g = [g_name g, g_note g]"

definition Team_to_list :: "Team \<Rightarrow> ustr option list" where
  "Team_to_list t = Group_to_list (t_group t) @ [t_name t, t_note t]"

definition Player_to_list :: "Player \<Rightarrow> ustr option list" where
  "Player_to_list p =
     Team_to_list (team p) @
     [registration_number p, p_name p, surname p, date_of_birth p, p_note p]"

fun to_list :: "entity \<Rightarrow> ustr option list" where
  "to_list (EGroup g) = Group_to_list g"
| "to_list (ETeam t) = Team_to_list t"
| "to_list (EPlayer p) = Player_to_list p"

text \<open>The column labels; the letters outside ASCII are given by their code points.\<close>

definition Group_header :: "ustr list" where
  "Group_header =
     [str ''N'' @ [0xE1] @ str ''zev, Odd'' @ [0xED] @ str ''l'',
      str ''Pozn'' @ [0xE1] @ str ''mka, Odd'' @ [0xED] @ str ''l'']"

definition Team_header :: "ustr list" where
  "Team_header =
     [str ''N'' @ [0xE1] @ str ''zev, Dru'' @ [0x17E] @ str ''stvo'',
      str ''Pozn'' @ [0xE1] @ str ''mka, Dru'' @ [0x17E] @ str ''stvo'']"

definition Player_header :: "ustr list" where
  "Player_header =
     [str ''Reg. '' @ [0x10D, 0xED] @ str ''slo, Hr''
        @ [0xE1, 0x10D],
      str ''Jm'' @ [0xE9] @ str ''no, Hr'' @ [0xE1, 0x10D],
      str ''P'' @ [0x159, 0xED] @ str ''jmen'' @ [0xED]
        @ str '', Hr'' @ [0xE1, 0x10D],
      str ''Datum nar., Hr'' @ [0xE1, 0x10D],
      str ''Pozn'' @ [0xE1] @ str ''mka, Hr'' @ [0xE1, 0x10D]]"

section \<open>The reader\<close>

text \<open>
  \<open>DtbReader.InvalidDtbFileError\<close> carries its message. The reader raises it with three
  messages, one for a team without a group, one for a player without a team and one for a
  line of no known type; each quotes the line between backquotes.
\<close>

datatype error = InvalidDtbFileError ustr

definition TeamWithoutGroup :: "ustr \<Rightarrow> error" where
  "TeamWithoutGroup line =
     InvalidDtbFileError (str ''DtbReader: Team without Group:'' @ [0x60] @ line @ [0x60])"

definition PlayerWithoutTeam :: "ustr \<Rightarrow> error" where
  "PlayerWithoutTeam line =
     InvalidDtbFileError (str ''DtbReader: Player without team:'' @ [0x60] @ line @ [0x60])"

definition UnknownLineType :: "ustr \<Rightarrow> error" where
  "UnknownLineType line =
     InvalidDtbFileError (str ''DtbReader: Unknown line type:'' @ [0x60] @ line @ [0x60])"

record DtbReader =
  current_group :: "Group option"
  current_team :: "Team option"

definition DtbReader_init :: DtbReader where
  "DtbReader_init = \<lparr>current_group = None, current_team = None\<rparr>"

text \<open>
  \<open>DtbReader.read\<close>, with the reader passed in and returned: the result is the entity read
  or the error raised, together with the reader as the call leaves it. The three patterns
  are tried in the order of the source; logging is left out.
\<close>

definition read :: "DtbReader \<Rightarrow> ustr \<Rightarrow> bool \<Rightarrow> (error + entity) \<times> DtbReader" where
  "read self line strict =
     (let group_re = (if strict then GROUP_RE_STRICT else GROUP_RE_LOOSE);
          team_re = (if strict then TEAM_RE_STRICT else TEAM_RE_LOOSE);
          player_re = (if strict then PLAYER_RE_STRICT else PLAYER_RE_LOOSE)
      in case fullmatch group_re line of
           Some group_match \<Rightarrow>
             (let g = \<lparr>g_name = group group_match ''name'', g_note = group group_match ''note''\<rparr>
              in (Inr (EGroup g), self\<lparr>current_group := Some g, current_team := None\<rparr>))
         | None \<Rightarrow>
             (case fullmatch team_re line of
                Some team_match \<Rightarrow>
                  (case current_group self of
                     None \<Rightarrow> (Inl (TeamWithoutGroup line), self)
                   | Some cg \<Rightarrow>
                       (let t = \<lparr>t_name = group team_match ''name'',
                                 t_note = group team_match ''note'', t_group = cg\<rparr>
                        in (Inr (ETeam t), self\<lparr>current_team := Some t\<rparr>)))
              | None \<Rightarrow>
                  (case fullmatch player_re line of
                     Some player_match \<Rightarrow>
                       (case current_team self of
                          None \<Rightarrow> (Inl (PlayerWithoutTeam line), self)
                        | Some ct \<Rightarrow>
                            (Inr (EPlayer
                               \<lparr>registration_number = group player_match ''registration_number'',
                                p_name = group player_match ''name'',
                                surname = group player_match ''surname'',
                                date_of_birth = group player_match ''date_of_birth'',
                                p_note = group player_match ''note'',
                                team = ct\<rparr>), self))
                   | None \<Rightarrow> (Inl (UnknownLineType line), self))))"

section \<open>The converter\<close>

text \<open>
  The output file is modelled as the list of the rows that \<open>csv.writer.writerow\<close> has
  written, each row as the list of its cells. The writer renders \<open>None\<close> as the empty
  text and writes one cell per element of the list it is given; the delimiter, the quoting
  and the row terminator of the \<open>csv\<close> module are not modelled.
\<close>

definition cells :: "ustr option list \<Rightarrow> ustr list" where
  "cells row = map (\<lambda>field. case field of None \<Rightarrow> [] | Some s \<Rightarrow> s) row"

definition writerow :: "ustr list list \<Rightarrow> ustr option list \<Rightarrow> ustr list list" where
  "writerow out row = out @ [cells row]"

text \<open>
  The loop of \<open>ConverterCsv.convert\<close> over the lines of the input: an error raised by
  \<open>read\<close> leaves the loop at once. \<open>read\<close> returns an entity or raises, so the test
  \<open>entity is not None\<close> of the source always holds.
\<close>

fun convert_loop ::
  "DtbReader \<Rightarrow> ustr list list \<Rightarrow> ustr list \<Rightarrow> bool \<Rightarrow> (error + unit) \<times> ustr list list"
where
  "convert_loop reader out [] strict = (Inr (), out)"
| "convert_loop reader out (line # dtb_input) strict =
     (case read reader line strict of
        (Inl e, reader') \<Rightarrow> (Inl e, out)
      | (Inr entity, reader') \<Rightarrow>
          convert_loop reader' (writerow out (to_list entity)) dtb_input strict)"

definition convert :: "ustr list \<Rightarrow> bool \<Rightarrow> (error + unit) \<times> ustr list list" where
  "convert dtb_input strict =
     convert_loop DtbReader_init
       (writerow [] (map Some (Group_header @ Team_header @ Player_header))) dtb_input strict"

text \<open>A sequence of \<open>read\<close> calls on one reader, each with its own mode, whatever each returns.\<close>

fun reads :: "DtbReader \<Rightarrow> (ustr \<times> bool) list \<Rightarrow> DtbReader" where
  "reads self [] = self"
| "reads self ((line, strict) # calls) = reads (snd (read self line strict)) calls"

text \<open>
  The cascade of the three patterns in \<open>read\<close>, apart from the reader: the kind of the
  first pattern that matches the line, with its match object.
\<close>

datatype kind = KGroup | KTeam | KPlayer

definition classify :: "ustr \<Rightarrow> bool \<Rightarrow> (kind \<times> (string \<times> ustr) list) option" where
  "classify line strict =
     (case fullmatch (if strict then GROUP_RE_STRICT else GROUP_RE_LOOSE) line of
        Some m \<Rightarrow> Some (KGroup, m)
      | None \<Rightarrow>
          (case fullmatch (if strict then TEAM_RE_STRICT else TEAM_RE_LOOSE) line of
             Some m \<Rightarrow> Some (KTeam, m)
           | None \<Rightarrow>
               (case fullmatch (if strict then PLAYER_RE_STRICT else PLAYER_RE_LOOSE) line of
                  Some m \<Rightarrow> Some (KPlayer, m)
                | None \<Rightarrow> None)))"

text \<open>The example of the README: a group, a team of it and a player of the team.\<close>

definition example_group_line :: ustr where
  "example_group_line = str ''group_name - group_note'' @ [NL]"

definition example_team_line :: ustr where
  "example_team_line = [TAB] @ str ''team_name - team_note'' @ [NL]"

definition example_player_line :: ustr where
  "example_player_line =
     [TAB, TAB] @ str ''00001234 - player_surname player_name, 01.01.1900 , player_note'' @ [NL]"

definition example_group :: Group where
  "example_group = \<lparr>g_name = Some (str ''group_name''), g_note = Some (str ''group_note'')\<rparr>"

definition example_team :: Team where
  "example_team =
     \<lparr>t_name = Some (str ''team_name''), t_note = Some (str ''team_note''), t_group = example_group\<rparr>"

definition example_player :: Player where
  "example_player =
     \<lparr>registration_number = Some (str ''00001234''), p_name = Some (str ''player_name''),
      surname = Some (str ''player_surname''), date_of_birth = Some (str ''01.01.1900''),
      p_note = Some (str ''player_note''), team = example_team\<rparr>"

definition example_player_match :: "(string \<times> ustr) list" where
  "example_player_match =
     [(''note'', str ''player_note''), (''date_of_birth'', str ''01.01.1900''),
      (''name'', str ''player_name''), (''surname'', str ''player_surname''),
      (''registration_number'', str ''00001234'')]"

text \<open>The reader after the group and the team of the example.\<close>

definition example_reader :: DtbReader where
  "example_reader = \<lparr>current_group = Some example_group, current_team = Some example_team\<rparr>"

text \<open>The calls of \<open>read\<close> that \<open>convert\<close> makes on the given lines.\<close>

definition read_calls :: "ustr list \<Rightarrow> bool \<Rightarrow> (ustr \<times> bool) list" where
  "read_calls lines strict = map (\<lambda>line. (line, strict)) lines"

section \<open>Notions for the statements and the proofs\<close>

text \<open>
  The text that a captured field takes in its line: nothing for a group that took no
  part, its value otherwise; the registration number is captured together with the space
  that follows it.
\<close>

definition field :: "ustr option \<Rightarrow> ustr" where
  "field v = (case v of None \<Rightarrow> [] | Some x \<Rightarrow> x)"

definition regtext :: "ustr option \<Rightarrow> ustr" where
  "regtext v = (case v of None \<Rightarrow> [] | Some x \<Rightarrow> x @ [SP])"

text \<open>The captures that an optional named group adds to a match.\<close>

definition cap :: "string \<Rightarrow> ustr option \<Rightarrow> (string \<times> ustr) list" where
  "cap n v = (case v of None \<Rightarrow> [] | Some x \<Rightarrow> [(n, x)])"

text \<open>
  \<open>consumed st w u st'\<close>: the state \<open>st'\<close> is \<open>st\<close> after reading the text \<open>w\<close> and
  adding the captures \<open>u\<close>.
\<close>

definition consumed :: "mstate \<Rightarrow> ustr \<Rightarrow> (string \<times> ustr) list \<Rightarrow> mstate \<Rightarrow> bool" where
  "consumed st w u st' \<longleftrightarrow>
     rest st = w @ rest st' \<and> pos st' = pos st + length w \<and> caps st' = u @ caps st"

text \<open>
  The texts a pattern can read, each with the captures it adds, whatever the order in
  which the matcher tries them. The anchors read nothing.
\<close>

fun den :: "regex \<Rightarrow> (ustr \<times> (string \<times> ustr) list) set" where
  "den Eps = {([], [])}"
| "den Bol = {([], [])}"
| "den Eol = {([], [])}"
| "den (Atom a) = {([c], []) | c. atom_ok a c}"
| "den (Star a) = {(w, []) | w. list_all (atom_ok a) w}"
| "den (Plus a) = {(w, []) | w. w \<noteq> [] \<and> list_all (atom_ok a) w}"
| "den (Opt r) = insert ([], []) (den r)"
| "den (Seq r1 r2) = {(w1 @ w2, u2 @ u1) | w1 u1 w2 u2. (w1, u1) \<in> den r1 \<and> (w2, u2) \<in> den r2}"
| "den (Grp r) = den r"
| "den (Named n r) = {(w, (n, w) # u) | w u. (w, u) \<in> den r}"

text \<open>
  \<open>greedy r s cp s' cp'\<close>: from the text \<open>s\<close> and the captures \<open>cp\<close>, at any position,
  the first state in which the matcher leaves \<open>r\<close> has the text \<open>s'\<close> left and the
  captures \<open>cp'\<close>.
\<close>

definition greedy ::
  "regex \<Rightarrow> ustr \<Rightarrow> (string \<times> ustr) list \<Rightarrow> ustr \<Rightarrow> (string \<times> ustr) list \<Rightarrow> bool"
where
  "greedy r s cp s' cp' \<longleftrightarrow>
     (\<forall>p. \<exists>p' ys. runs r \<lparr>pos = p, rest = s, caps = cp\<rparr> =
        \<lparr>pos = p', rest = s', caps = cp'\<rparr> # ys)"

text \<open>
  \<open>dash_in_note v\<close>: the note \<open>v\<close> that a strict Group or Team pattern captured starts
  with a dash, or holds a space and a dash with no tab before them. These are the notes in
  which the loose pattern finds a later place for the dash of the line.
\<close>

fun sp_dash_ahead :: "ustr \<Rightarrow> bool" where
  "sp_dash_ahead (a # b # xs) = (a = SP \<and> b = DASH \<or> a \<noteq> TAB \<and> sp_dash_ahead (b # xs))"
| "sp_dash_ahead xs = False"

definition dash_in_note :: "ustr option \<Rightarrow> bool" where
  "dash_in_note v = (case v of None \<Rightarrow> False | Some x \<Rightarrow> take 1 x = [DASH] \<or> sp_dash_ahead x)"

section \<open>What \<open>read\<close> does, by the kind of the line\<close>

lemmas pattern_eval = fullmatch_def classify_def one_def is_digit_def decimal_zeros_def str_def
  GROUP_RE_STRICT_def GROUP_RE_LOOSE_def TEAM_RE_STRICT_def TEAM_RE_LOOSE_def
  PLAYER_RE_STRICT_def PLAYER_RE_LOOSE_def


lemma read_classify:
  "read self line strict =
     (case classify line strict of
        None \<Rightarrow> (Inl (UnknownLineType line), self)
      | Some (KGroup, m) \<Rightarrow>
          (Inr (EGroup \<lparr>g_name = group m ''name'', g_note = group m ''note''\<rparr>),
           self\<lparr>current_group := Some \<lparr>g_name = group m ''name'', g_note = group m ''note''\<rparr>,
                current_team := None\<rparr>)
      | Some (KTeam, m) \<Rightarrow>
          (case current_group self of
             None \<Rightarrow> (Inl (TeamWithoutGroup line), self)
           | Some cg \<Rightarrow>
               (Inr (ETeam \<lparr>t_name = group m ''name'', t_note = group m ''note'', t_group = cg\<rparr>),
                self\<lparr>current_team :=
                  Some \<lparr>t_name = group m ''name'', t_note = group m ''note'', t_group = cg\<rparr>\<rparr>))
      | Some (KPlayer, m) \<Rightarrow>
          (case current_team self of
             None \<Rightarrow> (Inl (PlayerWithoutTeam line), self)
           | Some ct \<Rightarrow>
               (Inr (EPlayer
                  \<lparr>registration_number = group m ''registration_number'', p_name = group m ''name'',
                   surname = group m ''surname'', date_of_birth = group m ''date_of_birth'',
                   p_note = group m ''note'', team = ct\<rparr>), self)))"
  unfolding read_def classify_def Let_def
  by (simp split: option.split)

lemma read_unknown:
  "classify line strict = None \<Longrightarrow> read self line strict = (Inl (UnknownLineType line), self)"
  by (simp add: read_classify)

lemma read_group:
  "classify line strict = Some (KGroup, m) \<Longrightarrow>
   read self line strict =
     (Inr (EGroup \<lparr>g_name = group m ''name'', g_note = group m ''note''\<rparr>),
      self\<lparr>current_group := Some \<lparr>g_name = group m ''name'', g_note = group m ''note''\<rparr>,
           current_team := None\<rparr>)"
  by (simp add: read_classify)

lemma read_team_none:
  "classify line strict = Some (KTeam, m) \<Longrightarrow> current_group self = None \<Longrightarrow>
   read self line strict = (Inl (TeamWithoutGroup line), self)"
  by (simp add: read_classify)

lemma read_team_some:
  "classify line strict = Some (KTeam, m) \<Longrightarrow> current_group self = Some cg \<Longrightarrow>
   read self line strict =
     (Inr (ETeam \<lparr>t_name = group m ''name'', t_note = group m ''note'', t_group = cg\<rparr>),
      self\<lparr>current_team :=
             Some \<lparr>t_name = group m ''name'', t_note = group m ''note'', t_group = cg\<rparr>\<rparr>)"
  by (simp add: read_classify)

lemma read_player_none:
  "classify line strict = Some (KPlayer, m) \<Longrightarrow> current_team self = None \<Longrightarrow>
   read self line strict = (Inl (PlayerWithoutTeam line), self)"
  by (simp add: read_classify)

lemma read_player_some:
  "classify line strict = Some (KPlayer, m) \<Longrightarrow> current_team self = Some ct \<Longrightarrow>
   read self line strict =
     (Inr (EPlayer
        \<lparr>registration_number = group m ''registration_number'', p_name = group m ''name'',
         surname = group m ''surname'', date_of_birth = group m ''date_of_birth'',
         p_note = group m ''note'', team = ct\<rparr>), self)"
  by (simp add: read_classify)

lemma classify_cases:
  obtains (unknown) "classify line strict = None"
  | (group) m where "classify line strict = Some (KGroup, m)"
  | (team) m where "classify line strict = Some (KTeam, m)"
  | (player) m where "classify line strict = Some (KPlayer, m)"
proof (cases "classify line strict")
  case None
  then show ?thesis by (rule unknown)
next
  case (Some km)
  obtain k m where "km = (k, m)" by (cases km)
  with Some show ?thesis by (cases k) (auto intro: group team player)
qed

lemma read_error_unchanged: "fst (read self line strict) = Inl e \<Longrightarrow> snd (read self line strict) = self"
proof (cases line strict rule: classify_cases)
  case unknown
  then show ?thesis by (simp add: read_unknown)
next
  case (group m)
  assume "fst (read self line strict) = Inl e"
  with group show ?thesis by (simp add: read_group)
next
  case (team m)
  assume e: "fst (read self line strict) = Inl e"
  show ?thesis
  proof (cases "current_group self")
    case None
    with team show ?thesis by (simp add: read_team_none)
  next
    case (Some cg)
    with team e show ?thesis by (simp add: read_team_some)
  qed
next
  case (player m)
  show ?thesis
  proof (cases "current_team self")
    case None
    with player show ?thesis by (simp add: read_player_none)
  next
    case (Some ct)
    with player show ?thesis by (simp add: read_player_some)
  qed
qed

lemma read_error_kinds:
  "fst (read self line strict) = Inl e \<Longrightarrow>
   e = UnknownLineType line \<or> e = TeamWithoutGroup line \<or> e = PlayerWithoutTeam line"
  by (auto simp: read_classify split: option.splits kind.splits)

lemma read_keeps_invariant:
  "(current_team self \<noteq> None \<longrightarrow> current_group self \<noteq> None) \<Longrightarrow>
   current_team (snd (read self line strict)) \<noteq> None \<longrightarrow>
   current_group (snd (read self line strict)) \<noteq> None"
proof (cases line strict rule: classify_cases)
  case unknown
  assume "current_team self \<noteq> None \<longrightarrow> current_group self \<noteq> None"
  with unknown show ?thesis by (simp add: read_unknown)
next
  case (group m)
  then show ?thesis by (simp add: read_group)
next
  case (team m)
  assume inv: "current_team self \<noteq> None \<longrightarrow> current_group self \<noteq> None"
  show ?thesis
  proof (cases "current_group self")
    case None
    with team inv show ?thesis by (simp add: read_team_none)
  next
    case (Some cg)
    with team show ?thesis by (simp add: read_team_some)
  qed
next
  case (player m)
  assume inv: "current_team self \<noteq> None \<longrightarrow> current_group self \<noteq> None"
  show ?thesis
  proof (cases "current_team self")
    case None
    with player show ?thesis by (simp add: read_player_none)
  next
    case (Some ct)
    with player inv show ?thesis by (simp add: read_player_some)
  qed
qed

lemma reads_keeps_invariant:
  "(current_team self \<noteq> None \<longrightarrow> current_group self \<noteq> None) \<Longrightarrow>
   current_team (reads self calls) \<noteq> None \<longrightarrow> current_group (reads self calls) \<noteq> None"
proof (induction calls arbitrary: self)
  case Nil
  then show ?case by simp
next
  case (Cons call calls)
  obtain line strict where call: "call = (line, strict)" by (cases call)
  from Cons.prems have "current_team (snd (read self line strict)) \<noteq> None \<longrightarrow>
      current_group (snd (read self line strict)) \<noteq> None"
    by (rule read_keeps_invariant)
  then show ?case unfolding call reads.simps by (rule Cons.IH)
qed

lemma example_group_line_kind:
  "classify example_group_line True =
     Some (KGroup, [(''note'', str ''group_note''), (''name'', str ''group_name'')])"
  by (simp add: pattern_eval example_group_line_def)

lemma example_team_line_kind:
  "classify example_team_line True =
     Some (KTeam, [(''note'', str ''team_note''), (''name'', str ''team_name'')])"
  by (simp add: pattern_eval example_team_line_def)

lemma example_team_line_kind_loose:
  "classify example_team_line False =
     Some (KTeam, [(''note'', str ''team_note''), (''name'', str ''team_name'')])"
  by (simp add: pattern_eval example_team_line_def)

lemma example_player_line_kind:
  "classify example_player_line True = Some (KPlayer, example_player_match)"
  by (simp add: pattern_eval example_player_line_def example_player_match_def)

lemma example_reads:
  "read DtbReader_init example_group_line True =
     (Inr (EGroup example_group), \<lparr>current_group = Some example_group, current_team = None\<rparr>)"
  "read \<lparr>current_group = Some example_group, current_team = None\<rparr> example_team_line True =
     (Inr (ETeam example_team), example_reader)"
  "read example_reader example_player_line True = (Inr (EPlayer example_player), example_reader)"
  by (simp_all add: read_classify example_group_line_kind example_team_line_kind
      example_player_line_kind example_player_match_def group_def DtbReader_init_def
      example_group_def example_team_def example_player_def example_reader_def)

lemma error_kinds_distinct:
  "TeamWithoutGroup a \<noteq> PlayerWithoutTeam b" "PlayerWithoutTeam a \<noteq> TeamWithoutGroup b"
  "TeamWithoutGroup a \<noteq> UnknownLineType b" "UnknownLineType a \<noteq> TeamWithoutGroup b"
  "PlayerWithoutTeam a \<noteq> UnknownLineType b" "UnknownLineType a \<noteq> PlayerWithoutTeam b"
  by (simp_all add: TeamWithoutGroup_def PlayerWithoutTeam_def UnknownLineType_def str_def)

section \<open>The patterns on sample lines\<close>

text \<open>
  The matcher on lines that show its order of trying: the greedy name of a Group pattern
  ends at the last separator that lets the rest match; a name may hold a newline, a note
  may not; an optional group that takes no part is absent from the match, one that reads
  the empty text is present with the empty text.
\<close>

lemma group_samples:
  "fullmatch GROUP_RE_STRICT ([DASH, SP] @ [NL]) = Some []"
  "fullmatch GROUP_RE_STRICT (str ''a - b - c'' @ [NL]) = Some [(''note'', str ''c''), (''name'', str ''a - b'')]"
  "fullmatch GROUP_RE_STRICT (str ''a'' @ [NL] @ str ''b - c'' @ [NL]) =
     Some [(''note'', str ''c''), (''name'', str ''a'' @ [NL] @ str ''b'')]"
  "fullmatch GROUP_RE_STRICT (str ''a - '' @ [NL, NL]) = None"
  "fullmatch GROUP_RE_STRICT (str ''a - b'') = None"
  "fullmatch GROUP_RE_STRICT (str ''a -b'' @ [NL]) = None"
  "fullmatch GROUP_RE_LOOSE (str ''a -b'' @ [NL]) = Some [(''note'', str ''b''), (''name'', str ''a'')]"
  by (simp_all add: pattern_eval)

lemma player_samples:
  "fullmatch PLAYER_RE_STRICT ([TAB, TAB] @ str '' -  ,  , '' @ [NL]) =
     Some [(''registration_number'', [])]"
  "fullmatch PLAYER_RE_STRICT ([TAB, TAB] @ str ''- , , '' @ [NL]) = None"
  "fullmatch PLAYER_RE_LOOSE ([TAB, TAB] @ str ''1 - s n 1.1 x'' @ [NL]) =
     Some [(''note'', str ''x''), (''name'', str ''n 1.1''), (''surname'', str ''s''),
           (''registration_number'', str ''1'')]"
  "fullmatch PLAYER_RE_LOOSE ([TAB, TAB] @ str ''1 - s n,1.1 ,x'' @ [NL]) =
     Some [(''note'', str ''x''), (''date_of_birth'', str ''1.1''), (''name'', str ''n''),
           (''surname'', str ''s''), (''registration_number'', str ''1'')]"
  "fullmatch PLAYER_RE_LOOSE ([TAB, TAB] @ str ''- a b  c'' @ [NL]) =
     Some [(''note'', str ''c''), (''name'', str ''b ''), (''surname'', str ''a'')]"
  by (simp_all add: pattern_eval)

text \<open>
  The class \<open>\d\<close> on digits outside ASCII: the Arabic-Indic digit three (U+0663) is read
  as a registration number and in a date of birth, and so are fullwidth, Devanagari,
  Tamil and mathematical digits; the superscript two (U+00B2) and the circled one (U+2460)
  are numbers but no decimal digits, and are not read.
\<close>

lemma digit_samples:
  "fullmatch PLAYER_RE_STRICT ([TAB, TAB, 0x663] @ str '' - s n, 1.1 , x'' @ [NL]) =
     Some [(''note'', str ''x''), (''date_of_birth'', str ''1.1''), (''name'', str ''n''),
           (''surname'', str ''s''), (''registration_number'', [0x663])]"
  "fullmatch PLAYER_RE_LOOSE ([TAB, TAB] @ str '' -  , 1'' @ [0x663] @ str '' , '' @ [NL]) =
     Some [(''date_of_birth'', [0x31, 0x663]), (''registration_number'', [])]"
  "fullmatch PLAYER_RE_STRICT
     ([TAB, TAB, 0xFF11, 0x968] @ str '' - s n, '' @ [0xBE7, DOT, 0x1D7CE] @ str '' , x'' @ [NL]) =
     Some [(''note'', str ''x''), (''date_of_birth'', [0xBE7, DOT, 0x1D7CE]), (''name'', str ''n''),
           (''surname'', str ''s''), (''registration_number'', [0xFF11, 0x968])]"
  "fullmatch PLAYER_RE_STRICT ([TAB, TAB, 0xB2] @ str '' - s n, 1.1 , x'' @ [NL]) = None"
  "fullmatch PLAYER_RE_STRICT ([TAB, TAB, 0x2460] @ str '' - s n, 1.1 , x'' @ [NL]) = None"
  by (simp_all add: pattern_eval)

section \<open>Every way of matching a strict pattern is one of its loose pattern\<close>

lemma Seq_mono:
  assumes "\<And>st. set (runs a st) \<subseteq> set (runs a' st)"
    and "\<And>st. set (runs b st) \<subseteq> set (runs b' st)"
  shows "set (runs (Seq a b) st) \<subseteq> set (runs (Seq a' b') st)"
  using assms by fastforce

lemma Opt_covers: "set (runs r st) \<subseteq> set (runs (Opt r) st)"
  by auto

lemma group_strict_loose: "set (runs GROUP_RE_STRICT st) \<subseteq> set (runs GROUP_RE_LOOSE st)"
  unfolding GROUP_RE_STRICT_def GROUP_RE_LOOSE_def seqs.simps
  by (intro Seq_mono subset_refl Opt_covers)

lemma team_strict_loose: "set (runs TEAM_RE_STRICT st) \<subseteq> set (runs TEAM_RE_LOOSE st)"
  unfolding TEAM_RE_STRICT_def TEAM_RE_LOOSE_def seqs.simps
  by (intro Seq_mono subset_refl Opt_covers)

lemma player_strict_loose: "set (runs PLAYER_RE_STRICT st) \<subseteq> set (runs PLAYER_RE_LOOSE st)"
  unfolding PLAYER_RE_STRICT_def PLAYER_RE_LOOSE_def seqs.simps
  by (intro Seq_mono subset_refl Opt_covers)

lemma fullmatch_Some_iff:
  "(\<exists>m. fullmatch r line = Some m) \<longleftrightarrow>
   (\<exists>st \<in> set (runs r \<lparr>pos = 0, rest = line, caps = []\<rparr>). rest st = [])"
proof -
  have "fullmatch r line \<noteq> None \<longleftrightarrow>
      (\<exists>st \<in> set (runs r \<lparr>pos = 0, rest = line, caps = []\<rparr>). rest st = [])"
    by (simp add: fullmatch_def find_None_iff Bex_def)
  then show ?thesis by auto
qed

lemma fullmatch_mono:
  assumes "\<And>st. set (runs r st) \<subseteq> set (runs r' st)" and "fullmatch r line = Some m"
  shows "\<exists>m'. fullmatch r' line = Some m'"
  using assms fullmatch_Some_iff by blast

lemma group_no_tab:
  "fullmatch GROUP_RE_STRICT (TAB # s) = None" "fullmatch GROUP_RE_LOOSE (TAB # s) = None"
  by (simp_all add: fullmatch_def GROUP_RE_STRICT_def GROUP_RE_LOOSE_def one_def)

lemma team_needs_tab:
  "fullmatch TEAM_RE_STRICT line = Some m \<Longrightarrow> \<exists>s. line = TAB # s"
  "fullmatch TEAM_RE_LOOSE line = Some m \<Longrightarrow> \<exists>s. line = TAB # s"
  by (cases line; simp add: fullmatch_def TEAM_RE_STRICT_def TEAM_RE_LOOSE_def one_def split: if_splits)+

lemma team_no_tabs:
  "fullmatch TEAM_RE_STRICT (TAB # TAB # s) = None"
  "fullmatch TEAM_RE_LOOSE (TAB # TAB # s) = None"
  by (simp_all add: fullmatch_def TEAM_RE_STRICT_def TEAM_RE_LOOSE_def one_def)

lemma player_needs_tabs:
  "fullmatch PLAYER_RE_STRICT line = Some m \<Longrightarrow> \<exists>s. line = TAB # TAB # s"
  "fullmatch PLAYER_RE_LOOSE line = Some m \<Longrightarrow> \<exists>s. line = TAB # TAB # s"
  by (cases line; cases "tl line"; simp add: fullmatch_def PLAYER_RE_STRICT_def PLAYER_RE_LOOSE_def one_def split: if_splits)+

section \<open>Every match reads a text of its pattern\<close>

lemma consumed_refl: "consumed st [] [] st"
  by (simp add: consumed_def)

lemma consumed_trans:
  "consumed st w1 u1 mid \<Longrightarrow> consumed mid w2 u2 st' \<Longrightarrow> consumed st (w1 @ w2) (u2 @ u1) st'"
  by (simp add: consumed_def)

lemma many_consumed:
  "st' \<in> set (many a p s cp) \<Longrightarrow>
   \<exists>w. list_all (atom_ok a) w \<and> s = w @ rest st' \<and> pos st' = p + length w \<and> caps st' = cp"
proof (induction s arbitrary: p)
  case Nil
  then show ?case by simp
next
  case (Cons c cs)
  show ?case
  proof (cases "st' = \<lparr>pos = p, rest = c # cs, caps = cp\<rparr>")
    case True
    then show ?thesis by simp
  next
    case False
    with Cons.prems have ok: "atom_ok a c" and "st' \<in> set (many a (Suc p) cs cp)"
      by (auto split: if_splits)
    from Cons.IH [OF this(2)] obtain w where
      "list_all (atom_ok a) w" "cs = w @ rest st'" "pos st' = Suc p + length w" "caps st' = cp"
      by blast
    with ok have "list_all (atom_ok a) (c # w) \<and> c # cs = (c # w) @ rest st' \<and>
        pos st' = p + length (c # w) \<and> caps st' = cp"
      by simp
    then show ?thesis by blast
  qed
qed

lemma one_consumed:
  "st' \<in> set (one a st) \<Longrightarrow> \<exists>c. atom_ok a c \<and> consumed st [c] [] st'"
  by (auto simp: one_def consumed_def split: list.splits if_splits)

lemma runs_den: "st' \<in> set (runs r st) \<Longrightarrow> \<exists>w u. (w, u) \<in> den r \<and> consumed st w u st'"
proof (induction r arbitrary: st st')
  case Eps
  then show ?case by (simp add: consumed_refl)
next
  case Bol
  then show ?case by (simp add: consumed_refl split: if_splits)
next
  case Eol
  then show ?case by (simp add: consumed_refl split: if_splits)
next
  case (Atom a)
  then show ?case using one_consumed by fastforce
next
  case (Star a)
  then have "st' \<in> set (many a (pos st) (rest st) (caps st))" by simp
  from many_consumed [OF this] show ?case by (auto simp: consumed_def)
next
  case (Plus a)
  then obtain mid where m: "mid \<in> set (one a st)"
    and s: "st' \<in> set (many a (pos mid) (rest mid) (caps mid))"
    by auto
  from one_consumed [OF m] obtain c where c: "atom_ok a c" "consumed st [c] [] mid" by blast
  from many_consumed [OF s] obtain w where
    w: "list_all (atom_ok a) w" "consumed mid w [] st'"
    by (auto simp: consumed_def)
  from consumed_trans [OF c(2) w(2)] c(1) w(1)
  have "(c # w, []) \<in> den (Plus a) \<and> consumed st (c # w) [] st'" by simp
  then show ?case by blast
next
  case (Opt r)
  show ?case
  proof (cases "st' \<in> set (runs r st)")
    case True
    from Opt.IH [OF this] show ?thesis by auto
  next
    case False
    with Opt.prems have "st' = st" by simp
    then show ?thesis using consumed_refl by auto
  qed
next
  case (Seq r1 r2)
  then obtain mid where m: "mid \<in> set (runs r1 st)" and s: "st' \<in> set (runs r2 mid)"
    by auto
  from Seq.IH(1) [OF m] obtain w1 u1 where 1: "(w1, u1) \<in> den r1" "consumed st w1 u1 mid" by blast
  from Seq.IH(2) [OF s] obtain w2 u2 where 2: "(w2, u2) \<in> den r2" "consumed mid w2 u2 st'" by blast
  from 1 2 consumed_trans [OF 1(2) 2(2)]
  have "(w1 @ w2, u2 @ u1) \<in> den (Seq r1 r2) \<and> consumed st (w1 @ w2) (u2 @ u1) st'"
    by auto
  then show ?case by blast
next
  case (Grp r)
  then show ?case by simp
next
  case (Named n r)
  then obtain mid where m: "mid \<in> set (runs r st)"
    and s: "st' = mid\<lparr>caps := (n, take (pos mid - pos st) (rest st)) # caps mid\<rparr>"
    by auto
  from Named.IH [OF m] obtain w u where 1: "(w, u) \<in> den r" "consumed st w u mid" by blast
  from 1(2) s have "consumed st w ((n, w) # u) st'"
    by (simp add: consumed_def)
  with 1(1) have "(w, (n, w) # u) \<in> den (Named n r) \<and> consumed st w ((n, w) # u) st'" by auto
  then show ?case by blast
qed

lemma fullmatch_den: "fullmatch r line = Some m \<Longrightarrow> (line, m) \<in> den r"
proof -
  assume "fullmatch r line = Some m"
  then obtain st' where "find (\<lambda>st. rest st = []) (runs r \<lparr>pos = 0, rest = line, caps = []\<rparr>) = Some st'"
    and m: "caps st' = m"
    by (auto simp: fullmatch_def)
  then have "st' \<in> set (runs r \<lparr>pos = 0, rest = line, caps = []\<rparr>)" and e: "rest st' = []"
    by (auto simp: find_Some_iff in_set_conv_nth)
  from runs_den [OF this(1)] obtain w u where "(w, u) \<in> den r"
    "consumed \<lparr>pos = 0, rest = line, caps = []\<rparr> w u st'" by blast
  with e m show ?thesis by (simp add: consumed_def)
qed

section \<open>The shape of a Player line\<close>

lemma den_Seq_iff:
  "(w, u) \<in> den (Seq r1 r2) \<longleftrightarrow>
   (\<exists>w1 u1 w2 u2. w = w1 @ w2 \<and> u = u2 @ u1 \<and> (w1, u1) \<in> den r1 \<and> (w2, u2) \<in> den r2)"
  by auto

lemma den_Lit_iff: "(w, u) \<in> den (Atom (Lit c)) \<longleftrightarrow> w = [c] \<and> u = []"
  by auto

lemma den_Opt_Lit_iff: "(w, u) \<in> den (Opt (Atom (Lit c))) \<longleftrightarrow> (w = [] \<or> w = [c]) \<and> u = []"
  by auto

lemma den_Plus_Lit_iff:
  "(w, u) \<in> den (Plus (Lit c)) \<longleftrightarrow> (\<exists>k. w = replicate (Suc k) c) \<and> u = []"
proof -
  have "w \<noteq> [] \<and> list_all (\<lambda>x. x = c) w \<longleftrightarrow> (\<exists>k. w = replicate (Suc k) c)"
  proof
    assume a: "w \<noteq> [] \<and> list_all (\<lambda>x. x = c) w"
    then have "w = replicate (length w) c"
      by (simp add: list_all_iff replicate_length_same)
    moreover from a obtain k where "length w = Suc k" by (cases w) auto
    ultimately show "\<exists>k. w = replicate (Suc k) c" by metis
  next
    assume "\<exists>k. w = replicate (Suc k) c"
    then show "w \<noteq> [] \<and> list_all (\<lambda>x. x = c) w" by (auto simp: list_all_iff)
  qed
  moreover have "atom_ok (Lit c) = (\<lambda>x. x = c)" by (rule ext) simp
  ultimately show ?thesis by auto
qed

lemma den_Opt_Named_Plus:
  "(w, u) \<in> den (Opt (Named n (Plus a))) \<Longrightarrow>
   \<exists>v. w = field v \<and> u = cap n v \<and> (\<forall>x. v = Some x \<longrightarrow> x \<noteq> [] \<and> list_all (atom_ok a) x)"
proof (cases "(w, u) = ([], [])")
  case True
  then have "w = field None \<and> u = cap n None" by (simp add: field_def cap_def)
  then show ?thesis by blast
next
  case False
  assume "(w, u) \<in> den (Opt (Named n (Plus a)))"
  with False have "w = field (Some w) \<and> u = cap n (Some w) \<and> w \<noteq> [] \<and> list_all (atom_ok a) w"
    by (auto simp: field_def cap_def)
  then show ?thesis by blast
qed

lemma den_Opt_Named_Star_Lit:
  "(w, u) \<in> den (Opt (Grp (Seq (Named n (Star a)) (Atom (Lit c))))) \<Longrightarrow>
   \<exists>v. w = (case v of None \<Rightarrow> [] | Some x \<Rightarrow> x @ [c]) \<and> u = cap n v \<and>
       (\<forall>x. v = Some x \<longrightarrow> list_all (atom_ok a) x)"
proof (cases "(w, u) = ([], [])")
  case True
  then have "w = (case None of None \<Rightarrow> [] | Some x \<Rightarrow> x @ [c]) \<and> u = cap n None"
    by (simp add: cap_def)
  then show ?thesis by blast
next
  case False
  assume "(w, u) \<in> den (Opt (Grp (Seq (Named n (Star a)) (Atom (Lit c)))))"
  with False obtain x where "w = x @ [c]" "u = [(n, x)]" "list_all (atom_ok a) x"
    by auto
  then have "w = (case Some x of None \<Rightarrow> [] | Some x \<Rightarrow> x @ [c]) \<and> u = cap n (Some x) \<and>
      (\<forall>y. Some x = Some y \<longrightarrow> list_all (atom_ok a) y)"
    by (simp add: cap_def)
  then show ?thesis by blast
qed

lemma group_caps:
  assumes "n1 \<noteq> n2" "n1 \<noteq> n3" "n1 \<noteq> n4" "n1 \<noteq> n5" "n2 \<noteq> n3" "n2 \<noteq> n4" "n2 \<noteq> n5"
    "n3 \<noteq> n4" "n3 \<noteq> n5" "n4 \<noteq> n5"
    and "m = cap n5 v5 @ cap n4 v4 @ cap n3 v3 @ cap n2 v2 @ cap n1 v1"
  shows "group m n1 = v1" "group m n2 = v2" "group m n3 = v3" "group m n4 = v4" "group m n5 = v5"
  using assms unfolding group_def cap_def
  by (simp_all split: option.split)

lemma den_Bol_Seq: "(w, u) \<in> den (Seq Bol r) \<longleftrightarrow> (w, u) \<in> den r"
  by simp

lemma den_Eol_iff: "(w, u) \<in> den Eol \<longleftrightarrow> w = [] \<and> u = []"
  by simp

lemma den_Lit_Seq:
  "(w, u) \<in> den (Seq (Atom (Lit c)) r) \<longleftrightarrow> (\<exists>w'. w = c # w' \<and> (w', u) \<in> den r)"
  by auto

lemma den_Plus_Lit_Seq:
  "(w, u) \<in> den (Seq (Plus (Lit c)) r) \<longleftrightarrow>
   (\<exists>k w'. w = replicate (Suc k) c @ w' \<and> (w', u) \<in> den r)"
  (is "?l \<longleftrightarrow> ?r")
proof
  assume ?l
  then obtain w1 u1 w2 u2 where s: "w = w1 @ w2" "u = u2 @ u1"
    and 1: "(w1, u1) \<in> den (Plus (Lit c))" and 2: "(w2, u2) \<in> den r"
    unfolding den_Seq_iff by blast
  from 1 obtain k where "w1 = replicate (Suc k) c" "u1 = []"
    unfolding den_Plus_Lit_iff by blast
  with s 2 have "w = replicate (Suc k) c @ w2 \<and> (w2, u) \<in> den r" by simp
  then show ?r by blast
next
  assume ?r
  then obtain k w' where s: "w = replicate (Suc k) c @ w'" and 2: "(w', u) \<in> den r" by blast
  have "(replicate (Suc k) c, []) \<in> den (Plus (Lit c))"
    unfolding den_Plus_Lit_iff by blast
  with 2 have "(replicate (Suc k) c @ w', u @ []) \<in> den (Seq (Plus (Lit c)) r)"
    unfolding den_Seq_iff by blast
  with s show ?l by simp
qed

lemma den_Opt_Lit_Seq:
  "(w, u) \<in> den (Seq (Opt (Atom (Lit c))) r) \<longleftrightarrow>
   (\<exists>s w'. (s = [] \<or> s = [c]) \<and> w = s @ w' \<and> (w', u) \<in> den r)"
  (is "?l \<longleftrightarrow> ?r")
proof
  assume ?l
  then obtain w1 u1 w2 u2 where s: "w = w1 @ w2" "u = u2 @ u1"
    and 1: "(w1, u1) \<in> den (Opt (Atom (Lit c)))" and 2: "(w2, u2) \<in> den r"
    unfolding den_Seq_iff by blast
  from 1 have "(w1 = [] \<or> w1 = [c]) \<and> u1 = []" unfolding den_Opt_Lit_iff .
  with s 2 have "(w1 = [] \<or> w1 = [c]) \<and> w = w1 @ w2 \<and> (w2, u) \<in> den r" by simp
  then show ?r by blast
next
  assume ?r
  then obtain s w' where s: "s = [] \<or> s = [c]" "w = s @ w'" and 2: "(w', u) \<in> den r" by blast
  from s(1) have "(s, []) \<in> den (Opt (Atom (Lit c)))"
    unfolding den_Opt_Lit_iff by simp
  with 2 have "(s @ w', u @ []) \<in> den (Seq (Opt (Atom (Lit c))) r)"
    unfolding den_Seq_iff by blast
  with s show ?l by simp
qed

lemma den_Opt_Named_Plus_Seq:
  "(w, u) \<in> den (Seq (Opt (Named n (Plus a))) r) \<longleftrightarrow>
   (\<exists>v w' u'. w = field v @ w' \<and> u = u' @ cap n v \<and>
      (\<forall>x. v = Some x \<longrightarrow> x \<noteq> [] \<and> list_all (atom_ok a) x) \<and> (w', u') \<in> den r)"
  (is "?l \<longleftrightarrow> ?r")
proof
  assume ?l
  then obtain w1 u1 w2 u2 where s: "w = w1 @ w2" "u = u2 @ u1"
    and 1: "(w1, u1) \<in> den (Opt (Named n (Plus a)))" and 2: "(w2, u2) \<in> den r"
    unfolding den_Seq_iff by blast
  from den_Opt_Named_Plus [OF 1] s 2 show ?r by blast
next
  assume ?r
  then obtain v w' u' where s: "w = field v @ w'" "u = u' @ cap n v"
    and v: "\<forall>x. v = Some x \<longrightarrow> x \<noteq> [] \<and> list_all (atom_ok a) x" and 2: "(w', u') \<in> den r"
    by blast
  from v have "(field v, cap n v) \<in> den (Opt (Named n (Plus a)))"
    by (cases v) (simp_all add: field_def cap_def)
  with s 2 show ?l unfolding den_Seq_iff by blast
qed

lemma den_Opt_Named_Star_Seq:
  "(w, u) \<in> den (Seq (Opt (Grp (Seq (Named n (Star a)) (Atom (Lit SP))))) r) \<longleftrightarrow>
   (\<exists>v w' u'. w = regtext v @ w' \<and> u = u' @ cap n v \<and>
      (\<forall>x. v = Some x \<longrightarrow> list_all (atom_ok a) x) \<and> (w', u') \<in> den r)"
  (is "?l \<longleftrightarrow> ?r")
proof
  assume ?l
  then obtain w1 u1 w2 u2 where s: "w = w1 @ w2" "u = u2 @ u1"
    and 1: "(w1, u1) \<in> den (Opt (Grp (Seq (Named n (Star a)) (Atom (Lit SP)))))"
    and 2: "(w2, u2) \<in> den r"
    unfolding den_Seq_iff by blast
  from den_Opt_Named_Star_Lit [OF 1] s 2 show ?r unfolding regtext_def by blast
next
  assume ?r
  then obtain v w' u' where s: "w = regtext v @ w'" "u = u' @ cap n v"
    and v: "\<forall>x. v = Some x \<longrightarrow> list_all (atom_ok a) x" and 2: "(w', u') \<in> den r"
    by blast
  from v have "(regtext v, cap n v) \<in> den (Opt (Grp (Seq (Named n (Star a)) (Atom (Lit SP)))))"
    by (cases v) (simp_all add: regtext_def cap_def)
  with s 2 show ?l unfolding den_Seq_iff by blast
qed

lemmas den_peel = den_Bol_Seq den_Eol_iff den_Lit_Seq den_Plus_Lit_Seq den_Opt_Lit_Seq
  den_Opt_Named_Plus_Seq den_Opt_Named_Star_Seq

lemma player_strict_den:
  assumes "(line, m) \<in> den PLAYER_RE_STRICT"
  obtains v1 v2 v3 v4 v5 k where
    "line = [TAB, TAB] @ regtext v1 @ [DASH, SP] @ field v2 @ [SP] @ field v3 @ [COMMA, SP] @ field v4
        @ replicate (Suc k) SP @ [COMMA, SP] @ field v5 @ [NL]"
    "m = cap ''note'' v5 @ cap ''date_of_birth'' v4 @ cap ''name'' v3 @ cap ''surname'' v2
        @ cap ''registration_number'' v1"
    "\<forall>x. v1 = Some x \<longrightarrow> list_all (atom_ok Digit) x"
    "\<forall>x. v2 = Some x \<longrightarrow> x \<noteq> [] \<and> list_all (atom_ok (NSet [Ch SP, Ch COMMA])) x"
    "\<forall>x. v3 = Some x \<longrightarrow> x \<noteq> [] \<and> list_all (atom_ok (NSet [Ch COMMA])) x"
    "\<forall>x. v4 = Some x \<longrightarrow> x \<noteq> [] \<and> list_all (atom_ok (CSet [Dig, Ch DOT])) x"
    "\<forall>x. v5 = Some x \<longrightarrow> x \<noteq> [] \<and> list_all (atom_ok Dot) x"
  using assms unfolding PLAYER_RE_STRICT_def seqs.simps
  by (clarsimp simp: den_peel simp del: den.simps atom_ok.simps replicate.simps)

lemma player_loose_den:
  assumes "(line, m) \<in> den PLAYER_RE_LOOSE"
  obtains v1 v2 v3 v4 v5 k c1 s1 c2 s2 where
    "line = [TAB, TAB] @ regtext v1 @ [DASH, SP] @ field v2 @ [SP] @ field v3 @ c1 @ s1 @ field v4
        @ replicate (Suc k) SP @ c2 @ s2 @ field v5 @ [NL]"
    "m = cap ''note'' v5 @ cap ''date_of_birth'' v4 @ cap ''name'' v3 @ cap ''surname'' v2
        @ cap ''registration_number'' v1"
    "c1 = [] \<or> c1 = [COMMA]" "s1 = [] \<or> s1 = [SP]" "c2 = [] \<or> c2 = [COMMA]" "s2 = [] \<or> s2 = [SP]"
    "\<forall>x. v1 = Some x \<longrightarrow> list_all (atom_ok Digit) x"
    "\<forall>x. v2 = Some x \<longrightarrow> x \<noteq> [] \<and> list_all (atom_ok (NSet [Ch SP, Ch COMMA])) x"
    "\<forall>x. v3 = Some x \<longrightarrow> x \<noteq> [] \<and> list_all (atom_ok (NSet [Ch COMMA])) x"
    "\<forall>x. v4 = Some x \<longrightarrow> x \<noteq> [] \<and> list_all (atom_ok (CSet [Dig, Ch DOT])) x"
    "\<forall>x. v5 = Some x \<longrightarrow> x \<noteq> [] \<and> list_all (atom_ok Dot) x"
  using assms unfolding PLAYER_RE_LOOSE_def seqs.simps
  by (clarsimp simp: den_peel simp del: den.simps atom_ok.simps replicate.simps)

lemma atom_ok_classes:
  "atom_ok Digit = is_digit"
  "atom_ok (CSet [Dig, Ch DOT]) = (\<lambda>c. is_digit c \<or> c = DOT)"
  "atom_ok (NSet [Ch SP, Ch COMMA]) = (\<lambda>c. c \<noteq> SP \<and> c \<noteq> COMMA)"
  "atom_ok (NSet [Ch COMMA]) = (\<lambda>c. c \<noteq> COMMA)"
  "atom_ok Dot = (\<lambda>c. c \<noteq> NL)"
  by (rule ext, auto)+

lemmas player_names_distinct = group_caps
  [of "''registration_number''" "''surname''" "''name''" "''date_of_birth''" "''note''", simplified]

section \<open>The first alternative of the matcher on a strict Player line\<close>

lemma greedy_Seq:
  assumes "greedy r1 s cp s1 cp1" and "greedy r2 s1 cp1 s2 cp2"
  shows "greedy (Seq r1 r2) s cp s2 cp2"
  unfolding greedy_def
proof
  fix p
  from assms(1) obtain p1 ys where 1: "runs r1 \<lparr>pos = p, rest = s, caps = cp\<rparr> = \<lparr>pos = p1, rest = s1, caps = cp1\<rparr> # ys"
    unfolding greedy_def by blast
  from assms(2) obtain p2 zs where 2: "runs r2 \<lparr>pos = p1, rest = s1, caps = cp1\<rparr> = \<lparr>pos = p2, rest = s2, caps = cp2\<rparr> # zs"
    unfolding greedy_def by blast
  from 1 2 show "\<exists>p' ys. runs (Seq r1 r2) \<lparr>pos = p, rest = s, caps = cp\<rparr> = \<lparr>pos = p', rest = s2, caps = cp2\<rparr> # ys"
    by simp
qed

lemma greedy_Lit: "greedy (Atom (Lit c)) (c # s) cp s cp"
  by (simp add: greedy_def one_def)

lemma greedy_Opt_Lit: "greedy (Opt (Atom (Lit c))) (c # s) cp s cp"
  by (simp add: greedy_def one_def)

lemma greedy_Eol: "greedy Eol [] cp [] cp"
  by (simp add: greedy_def)

lemma many_greedy:
  assumes "list_all (atom_ok a) x" and "s = [] \<or> \<not> atom_ok a (hd s)"
  shows "\<exists>ys. many a p (x @ s) cp = \<lparr>pos = p + length x, rest = s, caps = cp\<rparr> # ys"
  using assms(1)
proof (induction x arbitrary: p)
  case Nil
  with assms(2) show ?case by (cases s) auto
next
  case (Cons c x)
  then obtain ys where "many a (Suc p) (x @ s) cp = \<lparr>pos = Suc p + length x, rest = s, caps = cp\<rparr> # ys"
    by fastforce
  with Cons.prems show ?case by simp
qed

lemma greedy_Plus:
  assumes "x \<noteq> []" "list_all (atom_ok a) x" and "s = [] \<or> \<not> atom_ok a (hd s)"
  shows "\<exists>ys. runs (Plus a) \<lparr>pos = p, rest = x @ s, caps = cp\<rparr> =
           \<lparr>pos = p + length x, rest = s, caps = cp\<rparr> # ys"
proof -
  from assms(1) obtain c x' where x: "x = c # x'" by (cases x) auto
  with assms(2) have c: "atom_ok a c" and x': "list_all (atom_ok a) x'" by simp_all
  from many_greedy [OF x' assms(3)] obtain ys where
    "many a (Suc p) (x' @ s) cp = \<lparr>pos = Suc p + length x', rest = s, caps = cp\<rparr> # ys" by blast
  with c x show ?thesis by (simp add: one_def)
qed

lemma greedy_Plus_Lit:
  assumes "s = [] \<or> hd s \<noteq> c"
  shows "greedy (Plus (Lit c)) (replicate (Suc k) c @ s) cp s cp"
proof -
  have "replicate (Suc k) c \<noteq> []" "list_all (atom_ok (Lit c)) (replicate (Suc k) c)"
    by (simp_all add: list_all_iff)
  moreover from assms have "s = [] \<or> \<not> atom_ok (Lit c) (hd s)" by simp
  ultimately show ?thesis unfolding greedy_def using greedy_Plus by blast
qed

lemma greedy_field:
  assumes "\<forall>x. v = Some x \<longrightarrow> x \<noteq> [] \<and> list_all (atom_ok a) x" and "s = [] \<or> \<not> atom_ok a (hd s)"
  shows "greedy (Opt (Named n (Plus a))) (field v @ s) cp s (cap n v @ cp)"
  unfolding greedy_def
proof
  fix p
  show "\<exists>p' ys. runs (Opt (Named n (Plus a))) \<lparr>pos = p, rest = field v @ s, caps = cp\<rparr> =
      \<lparr>pos = p', rest = s, caps = cap n v @ cp\<rparr> # ys"
  proof (cases v)
    case None
    with assms(2) show ?thesis by (cases s) (auto simp: field_def cap_def one_def)
  next
    case (Some x)
    with assms(1) have "x \<noteq> []" "list_all (atom_ok a) x" by simp_all
    from greedy_Plus [OF this assms(2)] obtain ys where
      "runs (Plus a) \<lparr>pos = p, rest = x @ s, caps = cp\<rparr> = \<lparr>pos = p + length x, rest = s, caps = cp\<rparr> # ys"
      by blast
    with Some show ?thesis by (simp add: field_def cap_def)
  qed
qed

lemma greedy_reg:
  assumes "\<forall>x. v = Some x \<longrightarrow> list_all (atom_ok a) x"
    and "\<not> atom_ok a SP" and "\<not> atom_ok a c" and "c \<noteq> SP"
  shows "greedy (Opt (Grp (Seq (Named n (Star a)) (Atom (Lit SP))))) (regtext v @ c # s) cp
           (c # s) (cap n v @ cp)"
  unfolding greedy_def
proof
  fix p
  show "\<exists>p' ys. runs (Opt (Grp (Seq (Named n (Star a)) (Atom (Lit SP)))))
                  \<lparr>pos = p, rest = regtext v @ c # s, caps = cp\<rparr> =
               \<lparr>pos = p', rest = c # s, caps = cap n v @ cp\<rparr> # ys"
  proof (cases v)
    case None
    with assms(3,4) show ?thesis by (simp add: regtext_def cap_def one_def)
  next
    case (Some x)
    with assms(1) have x: "list_all (atom_ok a) x" by simp
    from assms(2) have "SP # c # s = [] \<or> \<not> atom_ok a (hd (SP # c # s))" by simp
    from many_greedy [OF x this] obtain ys where
      "many a p (x @ SP # c # s) cp = \<lparr>pos = p + length x, rest = SP # c # s, caps = cp\<rparr> # ys"
      by blast
    with Some show ?thesis by (simp add: regtext_def cap_def one_def)
  qed
qed

lemma greedy_fullmatch:
  assumes "greedy r line [] [] m"
  shows "fullmatch (Seq Bol r) line = Some m"
proof -
  from assms obtain p' ys where "runs r \<lparr>pos = 0, rest = line, caps = []\<rparr> = \<lparr>pos = p', rest = [], caps = m\<rparr> # ys"
    unfolding greedy_def by blast
  then show ?thesis by (simp add: fullmatch_def)
qed

lemma player_strict_loose_same:
  assumes "fullmatch PLAYER_RE_STRICT line = Some m"
  shows "fullmatch PLAYER_RE_LOOSE line = Some m"
proof -
  from fullmatch_den [OF assms] obtain v1 v2 v3 v4 v5 k where
    line: "line = [TAB, TAB] @ regtext v1 @ [DASH, SP] @ field v2 @ [SP] @ field v3 @ [COMMA, SP] @ field v4
        @ replicate (Suc k) SP @ [COMMA, SP] @ field v5 @ [NL]"
    and m: "m = cap ''note'' v5 @ cap ''date_of_birth'' v4 @ cap ''name'' v3 @ cap ''surname'' v2
        @ cap ''registration_number'' v1"
    and v1: "\<forall>x. v1 = Some x \<longrightarrow> list_all (atom_ok Digit) x"
    and v2: "\<forall>x. v2 = Some x \<longrightarrow> x \<noteq> [] \<and> list_all (atom_ok (NSet [Ch SP, Ch COMMA])) x"
    and v3: "\<forall>x. v3 = Some x \<longrightarrow> x \<noteq> [] \<and> list_all (atom_ok (NSet [Ch COMMA])) x"
    and v4: "\<forall>x. v4 = Some x \<longrightarrow> x \<noteq> [] \<and> list_all (atom_ok (CSet [Dig, Ch DOT])) x"
    and v5: "\<forall>x. v5 = Some x \<longrightarrow> x \<noteq> [] \<and> list_all (atom_ok Dot) x"
    by (rule player_strict_den)
  have "greedy
     (seqs [Atom (Lit TAB), Atom (Lit TAB),
      Opt (Grp (Seq (Named ''registration_number'' (Star Digit)) (Atom (Lit SP)))),
      Atom (Lit DASH), Atom (Lit SP),
      Opt (Named ''surname'' (Plus (NSet [Ch SP, Ch COMMA]))), Atom (Lit SP),
      Opt (Named ''name'' (Plus (NSet [Ch COMMA]))),
      Opt (Atom (Lit COMMA)), Opt (Atom (Lit SP)),
      Opt (Named ''date_of_birth'' (Plus (CSet [Dig, Ch DOT]))),
      Plus (Lit SP), Opt (Atom (Lit COMMA)), Opt (Atom (Lit SP)),
      Opt (Named ''note'' (Plus Dot)), Atom (Lit NL), Eol])
     (TAB # TAB # regtext v1 @ DASH # SP # field v2 @ SP # field v3 @ COMMA # SP # field v4
        @ replicate (Suc k) SP @ COMMA # SP # field v5 @ [NL]) []
     [] (cap ''note'' v5 @ cap ''date_of_birth'' v4 @ cap ''name'' v3 @ cap ''surname'' v2
        @ cap ''registration_number'' v1 @ [])"
    unfolding seqs.simps
    by (rule greedy_Seq greedy_Lit greedy_Opt_Lit greedy_Eol greedy_reg [OF v1]
        greedy_field [OF v2] greedy_field [OF v3] greedy_field [OF v4] greedy_field [OF v5]
        greedy_Plus_Lit | simp add: is_digit_def decimal_zeros_def)+
  then have "fullmatch PLAYER_RE_LOOSE line = Some m"
    using greedy_fullmatch unfolding PLAYER_RE_LOOSE_def line m by simp
  then show ?thesis .
qed

section \<open>The first alternative of the matcher on a strict Group or Team line\<close>

text \<open>
  On a line that the strict Group or Team pattern matches and whose note has no dash of
  the kind of \<open>dash_in_note\<close>, the greedy name of the loose pattern ends where the
  strict one does: no longer name is followed by a space and a dash, and the first
  alternative from there on reads the rest of the line as the strict pattern did.
\<close>

lemma sp_dash_ahead_intro: "TAB \<notin> set u \<Longrightarrow> sp_dash_ahead (u @ SP # DASH # w)"
proof (induction u)
  case Nil
  then show ?case by simp
next
  case (Cons c u)
  then have "sp_dash_ahead (u @ SP # DASH # w)" and "c \<noteq> TAB" by auto
  then show ?case by (cases "u @ SP # DASH # w") auto
qed

lemma sp_dash_ahead_elim: "sp_dash_ahead x \<Longrightarrow> \<exists>u w. x = u @ SP # DASH # w \<and> TAB \<notin> set u"
proof (induction x rule: sp_dash_ahead.induct)
  case (1 a b xs)
  show ?case
  proof (cases "a = SP \<and> b = DASH")
    case True
    then have "a # b # xs = [] @ SP # DASH # xs \<and> TAB \<notin> set []" by simp
    then show ?thesis by blast
  next
    case False
    with "1.prems" have a: "a \<noteq> TAB" and "sp_dash_ahead (b # xs)" by auto
    with "1.IH" False obtain u w where "b # xs = u @ SP # DASH # w" "TAB \<notin> set u" by blast
    with a have "a # b # xs = (a # u) @ SP # DASH # w \<and> TAB \<notin> set (a # u)" by simp
    then show ?thesis by blast
  qed
qed simp_all

lemma later_dash_in_note:
  assumes "SP # f @ [NL] = u @ SP # DASH # w" and "TAB \<notin> set u"
  shows "dash_in_note (Some f)"
proof (cases u)
  case Nil
  with assms(1) have "f @ [NL] = DASH # w" by simp
  then have "take 1 f = [DASH]" by (cases f) auto
  then show ?thesis by (simp add: dash_in_note_def)
next
  case (Cons c u')
  with assms have e: "f @ [NL] = u' @ SP # DASH # w" and t: "TAB \<notin> set u'" by auto
  have "w \<noteq> []"
  proof
    assume "w = []"
    with e have "last (f @ [NL]) = last (u' @ [SP, DASH])" by simp
    then show False by simp
  qed
  then obtain w' z where w: "w = w' @ [z]" by (cases w rule: rev_cases) auto
  with e have "f @ [NL] = (u' @ SP # DASH # w') @ [z]" by simp
  then have "f = u' @ SP # DASH # w'" by (simp only: append1_eq_conv)
  with t show ?thesis by (simp add: dash_in_note_def sp_dash_ahead_intro)
qed

lemma no_later_dash:
  assumes "\<not> dash_in_note (Some f)" and "list_all (atom_ok (NSet [Ch TAB])) u"
    and "v \<noteq> None \<longrightarrow> u \<noteq> []"
  shows "(case v of None \<Rightarrow> DASH # SP # f @ [NL] | Some x \<Rightarrow> SP # DASH # SP # f @ [NL])
           \<noteq> u @ SP # DASH # w"
proof
  assume eq: "(case v of None \<Rightarrow> DASH # SP # f @ [NL] | Some x \<Rightarrow> SP # DASH # SP # f @ [NL])
           = u @ SP # DASH # w"
  from assms(2) have t: "TAB \<notin> set u" by (auto simp: list_all_iff)
  have "\<exists>u'. DASH # SP # f @ [NL] = u' @ SP # DASH # w \<and> TAB \<notin> set u'"
  proof (cases v)
    case None
    with eq t show ?thesis by auto
  next
    case (Some x)
    with assms(3) obtain c u' where u: "u = c # u'" by (cases u) auto
    with eq Some t have "DASH # SP # f @ [NL] = u' @ SP # DASH # w \<and> TAB \<notin> set u'" by simp
    then show ?thesis by blast
  qed
  then obtain u' where e: "DASH # SP # f @ [NL] = u' @ SP # DASH # w" and t': "TAB \<notin> set u'" by blast
  then obtain u'' where "u' = DASH # u''" by (cases u') auto
  with e t' have "SP # f @ [NL] = u'' @ SP # DASH # w" "TAB \<notin> set u''" by auto
  from later_dash_in_note [OF this] assms(1) show False by simp
qed

lemma many_last:
  "\<exists>front. many a q s cp = front @ [\<lparr>pos = q, rest = s, caps = cp\<rparr>] \<and>
     (\<forall>st \<in> set front. \<exists>u. u \<noteq> [] \<and> list_all (atom_ok a) u \<and> s = u @ rest st)"
proof (cases s)
  case Nil
  then show ?thesis by simp
next
  case (Cons c cs)
  show ?thesis
  proof (cases "atom_ok a c")
    case False
    with Cons show ?thesis by simp
  next
    case True
    have "\<forall>st \<in> set (many a (Suc q) cs cp). \<exists>u. u \<noteq> [] \<and> list_all (atom_ok a) u \<and> s = u @ rest st"
    proof
      fix st assume "st \<in> set (many a (Suc q) cs cp)"
      from many_consumed [OF this] obtain w where "list_all (atom_ok a) w" "cs = w @ rest st"
        by blast
      with True Cons have "c # w \<noteq> [] \<and> list_all (atom_ok a) (c # w) \<and> s = (c # w) @ rest st"
        by simp
      then show "\<exists>u. u \<noteq> [] \<and> list_all (atom_ok a) u \<and> s = u @ rest st" by blast
    qed
    with True Cons show ?thesis by simp
  qed
qed

lemma many_split:
  assumes "list_all (atom_ok a) x"
  shows "\<exists>front more. many a p (x @ s) cp =
           front @ \<lparr>pos = p + length x, rest = s, caps = cp\<rparr> # more \<and>
     (\<forall>st \<in> set front. \<exists>u. u \<noteq> [] \<and> list_all (atom_ok a) u \<and> s = u @ rest st)"
  using assms
proof (induction x arbitrary: p)
  case Nil
  from many_last [of a p s cp] show ?case by auto
next
  case (Cons c x)
  then have c: "atom_ok a c" and "list_all (atom_ok a) x" by simp_all
  from Cons.IH [OF this(2), of "Suc p"] obtain front more where
    "many a (Suc p) (x @ s) cp = front @ \<lparr>pos = Suc p + length x, rest = s, caps = cp\<rparr> # more"
    and f: "\<forall>st \<in> set front. \<exists>u. u \<noteq> [] \<and> list_all (atom_ok a) u \<and> s = u @ rest st"
    by blast
  with c have "many a p ((c # x) @ s) cp =
      front @ \<lparr>pos = p + length (c # x), rest = s, caps = cp\<rparr> #
        (more @ [\<lparr>pos = p, rest = c # x @ s, caps = cp\<rparr>])"
    by simp
  with f show ?case by blast
qed

lemma concat_map_concat:
  "concat (map f (concat xss)) = concat (map (\<lambda>xs. concat (map f xs)) xss)"
  by (induction xss) simp_all

lemma concat_concat_map:
  "concat (concat (map (\<lambda>x. map f (g x)) xs)) = concat (map (\<lambda>x. concat (map f (g x))) xs)"
  by (induction xs) simp_all

lemma runs_eta:
  "runs (Seq r2 r3) = (\<lambda>x. concat (map (runs r3) (runs r2 x)))" "runs (Atom a) = one a"
  by (rule ext, simp)+

lemma runs_Seq_assoc: "runs (Seq (Seq r1 r2) r3) st = runs (Seq r1 (Seq r2 r3)) st"
  by (simp add: concat_map_concat comp_def runs_eta)

lemma greedy_assoc:
  "greedy (Seq (Seq r1 r2) r3) s cp s' cp' \<Longrightarrow> greedy (Seq r1 (Seq r2 r3)) s cp s' cp'"
  unfolding greedy_def runs_Seq_assoc .

lemma concat_map_dead: "(\<And>x. x \<in> set xs \<Longrightarrow> f x = []) \<Longrightarrow> concat (map f xs) = []"
  by (induction xs) auto

lemma greedy_name_dash:
  assumes v: "\<forall>x. v = Some x \<longrightarrow> list_all (atom_ok a) x"
    and nd: "\<And>u w. list_all (atom_ok a) u \<Longrightarrow> v \<noteq> None \<longrightarrow> u \<noteq> [] \<Longrightarrow>
      (case v of None \<Rightarrow> DASH # t | Some x \<Rightarrow> SP # DASH # t) \<noteq> u @ SP # DASH # w"
  shows "greedy (Seq (Opt (Grp (Seq (Named n (Star a)) (Atom (Lit SP))))) (Atom (Lit DASH)))
           (regtext v @ DASH # t) cp t (cap n v @ cp)"
  unfolding greedy_def
proof
  fix p
  let ?line = "regtext v @ DASH # t"
  let ?G = "\<lambda>st. concat (map (one (Lit DASH))
      (one (Lit SP) (st\<lparr>caps := (n, take (pos st - p) ?line) # caps st\<rparr>)))"
  have runs: "runs (Seq (Opt (Grp (Seq (Named n (Star a)) (Atom (Lit SP))))) (Atom (Lit DASH)))
      \<lparr>pos = p, rest = ?line, caps = cp\<rparr> =
      concat (map ?G (many a p ?line cp)) @ one (Lit DASH) \<lparr>pos = p, rest = ?line, caps = cp\<rparr>"
    by (simp add: comp_def map_concat concat_concat_map runs_eta)
  have dead: "?G st = []" if "\<And>w. rest st \<noteq> SP # DASH # w" for st
  proof (cases "rest st")
    case Nil
    then show ?thesis by (simp add: one_def)
  next
    case (Cons c1 r1)
    show ?thesis
    proof (cases r1)
      case Nil
      with Cons show ?thesis by (simp add: one_def)
    next
      case (Cons c2 r2)
      with \<open>rest st = c1 # r1\<close> that [of r2] show ?thesis by (auto simp: one_def)
    qed
  qed
  show "\<exists>p' ys. runs (Seq (Opt (Grp (Seq (Named n (Star a)) (Atom (Lit SP))))) (Atom (Lit DASH)))
      \<lparr>pos = p, rest = ?line, caps = cp\<rparr> = \<lparr>pos = p', rest = t, caps = cap n v @ cp\<rparr> # ys"
  proof (cases v)
    case None
    have "?G st = []" if "st \<in> set (many a p ?line cp)" for st
    proof (rule dead)
      fix w
      from many_consumed [OF that] obtain u where u: "list_all (atom_ok a) u" "?line = u @ rest st"
        by blast
      show "rest st \<noteq> SP # DASH # w"
      proof
        assume "rest st = SP # DASH # w"
        with u(2) None have "DASH # t = u @ SP # DASH # w" by (simp add: regtext_def)
        with nd [OF u(1), of w] None show False by simp
      qed
    qed
    then have "concat (map ?G (many a p ?line cp)) = []" by (rule concat_map_dead)
    then have "runs (Seq (Opt (Grp (Seq (Named n (Star a)) (Atom (Lit SP))))) (Atom (Lit DASH)))
        \<lparr>pos = p, rest = ?line, caps = cp\<rparr> = one (Lit DASH) \<lparr>pos = p, rest = ?line, caps = cp\<rparr>"
      unfolding runs by simp
    also have "\<dots> = [\<lparr>pos = Suc p, rest = t, caps = cap n v @ cp\<rparr>]"
      using None by (simp add: regtext_def cap_def one_def)
    finally show ?thesis by blast
  next
    case (Some x)
    with v have x: "list_all (atom_ok a) x" by simp
    from Some have line: "?line = x @ SP # DASH # t" by (simp add: regtext_def)
    from many_split [OF x, of p "SP # DASH # t" cp] obtain front more where
      m: "many a p (x @ SP # DASH # t) cp =
           front @ \<lparr>pos = p + length x, rest = SP # DASH # t, caps = cp\<rparr> # more"
      and f: "\<forall>st \<in> set front. \<exists>u. u \<noteq> [] \<and> list_all (atom_ok a) u \<and> SP # DASH # t = u @ rest st"
      by blast
    have "?G st = []" if "st \<in> set front" for st
    proof (rule dead)
      fix w
      from f that obtain u where u: "u \<noteq> []" "list_all (atom_ok a) u" "SP # DASH # t = u @ rest st"
        by blast
      show "rest st \<noteq> SP # DASH # w"
      proof
        assume "rest st = SP # DASH # w"
        with u(3) have "SP # DASH # t = u @ SP # DASH # w" by simp
        with nd [OF u(2), of w] u(1) Some show False by simp
      qed
    qed
    then have 1: "concat (map ?G front) = []" by (rule concat_map_dead)
    have 2: "?G \<lparr>pos = p + length x, rest = SP # DASH # t, caps = cp\<rparr> =
        [\<lparr>pos = Suc (Suc (p + length x)), rest = t, caps = cap n v @ cp\<rparr>]"
      using Some by (simp add: one_def regtext_def cap_def)
    have "concat (map ?G (many a p ?line cp)) =
        concat (map ?G front) @ ?G \<lparr>pos = p + length x, rest = SP # DASH # t, caps = cp\<rparr>
          @ concat (map ?G more)"
      unfolding line m by simp
    then have "runs (Seq (Opt (Grp (Seq (Named n (Star a)) (Atom (Lit SP))))) (Atom (Lit DASH)))
        \<lparr>pos = p, rest = ?line, caps = cp\<rparr> =
        \<lparr>pos = Suc (Suc (p + length x)), rest = t, caps = cap n v @ cp\<rparr> #
          (concat (map ?G more) @ one (Lit DASH) \<lparr>pos = p, rest = ?line, caps = cp\<rparr>)"
      unfolding runs 1 2 by simp
    then show ?thesis by blast
  qed
qed

lemma group_strict_den:
  assumes "(line, m) \<in> den GROUP_RE_STRICT"
  obtains v1 v2 where
    "line = regtext v1 @ DASH # SP # field v2 @ [NL]"
    "m = cap ''note'' v2 @ cap ''name'' v1"
    "\<forall>x. v1 = Some x \<longrightarrow> list_all (atom_ok (NSet [Ch TAB])) x"
    "\<forall>x. v2 = Some x \<longrightarrow> x \<noteq> [] \<and> list_all (atom_ok Dot) x"
  using assms unfolding GROUP_RE_STRICT_def seqs.simps
  by (clarsimp simp: den_peel simp del: den.simps atom_ok.simps replicate.simps)

lemma team_strict_den:
  assumes "(line, m) \<in> den TEAM_RE_STRICT"
  obtains v1 v2 where
    "line = TAB # regtext v1 @ DASH # SP # field v2 @ [NL]"
    "m = cap ''note'' v2 @ cap ''name'' v1"
    "\<forall>x. v1 = Some x \<longrightarrow> list_all (atom_ok (NSet [Ch TAB])) x"
    "\<forall>x. v2 = Some x \<longrightarrow> x \<noteq> [] \<and> list_all (atom_ok Dot) x"
  using assms unfolding TEAM_RE_STRICT_def seqs.simps
  by (clarsimp simp: den_peel simp del: den.simps atom_ok.simps replicate.simps)

lemma note_of_caps: "group (cap ''note'' v2 @ cap ''name'' v1) ''note'' = v2"
  by (simp add: group_def cap_def split: option.split)

lemma name_dash_tail:
  assumes v1: "\<forall>x. v1 = Some x \<longrightarrow> list_all (atom_ok (NSet [Ch TAB])) x"
    and v2: "\<forall>x. v2 = Some x \<longrightarrow> x \<noteq> [] \<and> list_all (atom_ok Dot) x"
    and nd: "\<not> dash_in_note v2"
  shows "greedy
     (seqs [Opt (Grp (Seq (Named ''name'' (Star (NSet [Ch TAB]))) (Atom (Lit SP)))),
            Atom (Lit DASH), Opt (Atom (Lit SP)),
            Opt (Named ''note'' (Plus Dot)), Atom (Lit NL), Eol])
     (regtext v1 @ DASH # SP # field v2 @ [NL]) cp [] (cap ''note'' v2 @ cap ''name'' v1 @ cp)"
proof -
  have nd': "(case v1 of None \<Rightarrow> DASH # SP # field v2 @ [NL] | Some x \<Rightarrow> SP # DASH # SP # field v2 @ [NL])
      \<noteq> u @ SP # DASH # w"
    if "list_all (atom_ok (NSet [Ch TAB])) u" "v1 \<noteq> None \<longrightarrow> u \<noteq> []" for u w
  proof -
    from nd have "\<not> dash_in_note (Some (field v2))"
      by (cases v2) (simp_all add: field_def dash_in_note_def)
    from no_later_dash [OF this that] show ?thesis .
  qed
  have "greedy
     (Seq (Seq (Opt (Grp (Seq (Named ''name'' (Star (NSet [Ch TAB]))) (Atom (Lit SP)))))
               (Atom (Lit DASH)))
          (seqs [Opt (Atom (Lit SP)), Opt (Named ''note'' (Plus Dot)), Atom (Lit NL), Eol]))
     (regtext v1 @ DASH # SP # field v2 @ [NL]) cp [] (cap ''note'' v2 @ cap ''name'' v1 @ cp)"
    unfolding seqs.simps
    by (rule greedy_Seq greedy_name_dash [OF v1 nd'] greedy_Opt_Lit greedy_field [OF v2]
        greedy_Lit greedy_Eol | simp)+
  then show ?thesis unfolding seqs.simps by (rule greedy_assoc)
qed

lemma group_strict_loose_same:
  assumes "fullmatch GROUP_RE_STRICT line = Some m" and "\<not> dash_in_note (group m ''note'')"
  shows "fullmatch GROUP_RE_LOOSE line = Some m"
proof -
  from fullmatch_den [OF assms(1)] obtain v1 v2 where
    line: "line = regtext v1 @ DASH # SP # field v2 @ [NL]"
    and m: "m = cap ''note'' v2 @ cap ''name'' v1"
    and v1: "\<forall>x. v1 = Some x \<longrightarrow> list_all (atom_ok (NSet [Ch TAB])) x"
    and v2: "\<forall>x. v2 = Some x \<longrightarrow> x \<noteq> [] \<and> list_all (atom_ok Dot) x"
    by (rule group_strict_den)
  from assms(2) have nd: "\<not> dash_in_note v2" unfolding m note_of_caps .
  from name_dash_tail [OF v1 v2 nd, of "[]"] show ?thesis
    unfolding GROUP_RE_LOOSE_def line m seqs.simps(3) [of Bol] by (simp add: greedy_fullmatch)
qed

lemma team_strict_loose_same:
  assumes "fullmatch TEAM_RE_STRICT line = Some m" and "\<not> dash_in_note (group m ''note'')"
  shows "fullmatch TEAM_RE_LOOSE line = Some m"
proof -
  from fullmatch_den [OF assms(1)] obtain v1 v2 where
    line: "line = TAB # regtext v1 @ DASH # SP # field v2 @ [NL]"
    and m: "m = cap ''note'' v2 @ cap ''name'' v1"
    and v1: "\<forall>x. v1 = Some x \<longrightarrow> list_all (atom_ok (NSet [Ch TAB])) x"
    and v2: "\<forall>x. v2 = Some x \<longrightarrow> x \<noteq> [] \<and> list_all (atom_ok Dot) x"
    by (rule team_strict_den)
  from assms(2) have nd: "\<not> dash_in_note v2" unfolding m note_of_caps .
  have "greedy (Seq (Atom (Lit TAB))
     (seqs [Opt (Grp (Seq (Named ''name'' (Star (NSet [Ch TAB]))) (Atom (Lit SP)))),
            Atom (Lit DASH), Opt (Atom (Lit SP)),
            Opt (Named ''note'' (Plus Dot)), Atom (Lit NL), Eol]))
     (TAB # regtext v1 @ DASH # SP # field v2 @ [NL]) [] [] (cap ''note'' v2 @ cap ''name'' v1 @ [])"
    by (rule greedy_Seq [OF greedy_Lit name_dash_tail [OF v1 v2 nd]])
  then show ?thesis
    unfolding TEAM_RE_LOOSE_def line m by (simp add: greedy_fullmatch)
qed

section \<open>The name that the loose pattern captures when the note holds a dash\<close>

text \<open>
  When the note has a dash of the kind of \<open>dash_in_note\<close>, the loose pattern has a
  way of matching whose name reaches up to that dash. The matcher tries the names from the longest down, so the name
  of its first match is at least as long, and longer than the name of the strict match.
\<close>

lemma many_member:
  assumes "list_all (atom_ok a) u"
  shows "\<lparr>pos = p + length u, rest = s, caps = cp\<rparr> \<in> set (many a p (u @ s) cp)"
  using many_split [OF assms, of p s cp] by auto

lemma many_pos: "st \<in> set (many a p s cp) \<Longrightarrow> p \<le> pos st"
  using many_consumed by fastforce

lemma many_order:
  "many a p s cp = pre @ c # post \<Longrightarrow> c0 \<in> set post \<Longrightarrow> pos c0 < pos c"
proof (induction s arbitrary: p pre c post)
  case Nil
  then show ?case by (simp add: Cons_eq_append_conv append_eq_Cons_conv)
next
  case (Cons ch cs)
  show ?case
  proof (cases "atom_ok a ch")
    case False
    with Cons.prems show ?thesis by (simp add: Cons_eq_append_conv append_eq_Cons_conv)
  next
    case True
    with Cons.prems(1) have m: "many a (Suc p) cs cp @ [\<lparr>pos = p, rest = ch # cs, caps = cp\<rparr>] = pre @ c # post"
      by simp
    from Cons.prems(2) obtain post' l where post: "post = post' @ [l]"
      by (cases post rule: rev_cases) auto
    with m have m': "many a (Suc p) cs cp = pre @ c # post'" and l: "l = \<lparr>pos = p, rest = ch # cs, caps = cp\<rparr>"
      by simp_all
    show ?thesis
    proof (cases "c0 \<in> set post'")
      case True
      with Cons.IH [OF m'] show ?thesis .
    next
      case False
      with Cons.prems(2) post l have "pos c0 = p" by simp
      moreover have "c \<in> set (many a (Suc p) cs cp)" unfolding m' by simp
      then have "Suc p \<le> pos c" by (rule many_pos)
      ultimately show ?thesis by simp
    qed
  qed
qed

lemma find_append:
  "find P (xs @ ys) = (case find P xs of None \<Rightarrow> find P ys | Some x \<Rightarrow> Some x)"
  by (induction xs) simp_all

lemma find_first_chunk:
  assumes "c0 \<in> set xs" and "y \<in> set (H c0)" and "P y"
  shows "\<exists>pre c post z. xs = pre @ c # post \<and> find P (concat (map H xs) @ ys) = Some z \<and>
           z \<in> set (H c) \<and> c0 \<in> set (c # post)"
  using assms(1)
proof (induction xs)
  case Nil
  then show ?case by simp
next
  case (Cons x xs)
  show ?case
  proof (cases "\<exists>z \<in> set (H x). P z")
    case True
    then obtain z where z: "find P (H x) = Some z"
      by (cases "find P (H x)") (auto simp: find_None_iff)
    then have "z \<in> set (H x)" by (auto simp: find_Some_iff)
    moreover from z have "find P (concat (map H (x # xs)) @ ys) = Some z"
      by (simp add: find_append)
    ultimately have "x # xs = [] @ x # xs \<and> find P (concat (map H (x # xs)) @ ys) = Some z \<and>
        z \<in> set (H x) \<and> c0 \<in> set (x # xs)"
      using Cons.prems by simp
    then show ?thesis by blast
  next
    case False
    with assms(2,3) have "c0 \<noteq> x" by auto
    with Cons.prems have "c0 \<in> set xs" by simp
    from Cons.IH [OF this] obtain pre c post z where
      "xs = pre @ c # post" "find P (concat (map H xs) @ ys) = Some z" "z \<in> set (H c)"
      "c0 \<in> set (c # post)"
      by blast
    moreover from False have "find P (H x) = None" by (simp add: find_None_iff)
    ultimately have "x # xs = (x # pre) @ c # post \<and>
        find P (concat (map H (x # xs)) @ ys) = Some z \<and> z \<in> set (H c) \<and> c0 \<in> set (c # post)"
      by (simp add: find_append)
    then show ?thesis by blast
  qed
qed

lemma greedy_Opt_Lit_skip:
  "s = [] \<or> hd s \<noteq> c \<Longrightarrow> greedy (Opt (Atom (Lit c))) s cp s cp"
  by (cases s) (auto simp: greedy_def one_def)

lemma loose_tail_greedy:
  assumes "list_all (atom_ok Dot) x"
  shows "\<exists>cp'. greedy
     (Seq (Atom (Lit SP)) (Seq (Atom (Lit DASH))
        (seqs [Opt (Atom (Lit SP)), Opt (Named ''note'' (Plus Dot)), Atom (Lit NL), Eol])))
     (SP # DASH # x @ [NL]) cp [] cp'"
proof -
  have nt: "greedy (seqs [Opt (Named ''note'' (Plus Dot)), Atom (Lit NL), Eol])
      (y @ [NL]) cp [] (cap ''note'' (if y = [] then None else Some y) @ cp)"
    if "list_all (atom_ok Dot) y" for y
  proof -
    have v: "\<forall>z. (if y = [] then None else Some y) = Some z \<longrightarrow> z \<noteq> [] \<and> list_all (atom_ok Dot) z"
      using that by simp
    have f: "y @ [NL] = field (if y = [] then None else Some y) @ [NL]"
      by (simp add: field_def)
    show ?thesis
      unfolding seqs.simps f
      by (rule greedy_Seq greedy_field [OF v] greedy_Lit greedy_Eol | simp)+
  qed
  show ?thesis
  proof (cases "x \<noteq> [] \<and> hd x = SP")
    case True
    then obtain x' where x: "x = SP # x'" by (cases x) auto
    with assms have "list_all (atom_ok Dot) x'" by simp
    from nt [OF this] have "greedy
     (Seq (Atom (Lit SP)) (Seq (Atom (Lit DASH))
        (Seq (Opt (Atom (Lit SP))) (seqs [Opt (Named ''note'' (Plus Dot)), Atom (Lit NL), Eol]))))
     (SP # DASH # SP # x' @ [NL]) cp [] (cap ''note'' (if x' = [] then None else Some x') @ cp)"
      by (intro greedy_Seq [OF greedy_Lit] greedy_Seq [OF greedy_Opt_Lit])
    with x show ?thesis by auto
  next
    case False
    then have "x @ [NL] = [] \<or> hd (x @ [NL]) \<noteq> SP" by (cases x) auto
    from greedy_Opt_Lit_skip [OF this] nt [OF assms] have "greedy
     (Seq (Atom (Lit SP)) (Seq (Atom (Lit DASH))
        (Seq (Opt (Atom (Lit SP))) (seqs [Opt (Named ''note'' (Plus Dot)), Atom (Lit NL), Eol]))))
     (SP # DASH # x @ [NL]) cp [] (cap ''note'' (if x = [] then None else Some x) @ cp)"
      by (intro greedy_Seq [OF greedy_Lit] greedy_Seq)
    then show ?thesis by auto
  qed
qed

lemma loose_tail_caps:
  assumes "(w, u) \<in> den (Seq (Atom (Lit SP)) (Seq (Atom (Lit DASH))
        (seqs [Opt (Atom (Lit SP)), Opt (Named ''note'' (Plus Dot)), Atom (Lit NL), Eol])))"
  shows "\<exists>v. u = cap ''note'' v"
  using assms unfolding seqs.simps
  by (clarsimp simp: den_peel simp del: den.simps atom_ok.simps, blast)

lemma loose_name_longer:
  assumes y: "list_all (atom_ok (NSet [Ch TAB])) y" and x: "list_all (atom_ok Dot) x"
  shows "\<exists>z nm. find (\<lambda>st. rest st = [])
            (runs (seqs [Opt (Grp (Seq (Named ''name'' (Star (NSet [Ch TAB]))) (Atom (Lit SP)))),
                         Atom (Lit DASH), Opt (Atom (Lit SP)),
                         Opt (Named ''note'' (Plus Dot)), Atom (Lit NL), Eol])
               \<lparr>pos = p, rest = y @ SP # DASH # x @ [NL], caps = []\<rparr>) = Some z \<and>
          group (caps z) ''name'' = Some nm \<and> length y \<le> length nm"
proof -
  let ?s = "y @ SP # DASH # x @ [NL]"
  let ?T = "Seq (Atom (Lit DASH))
        (seqs [Opt (Atom (Lit SP)), Opt (Named ''note'' (Plus Dot)), Atom (Lit NL), Eol])"
  let ?H = "\<lambda>c. runs (Seq (Atom (Lit SP)) ?T) (c\<lparr>caps := (''name'', take (pos c - p) ?s) # caps c\<rparr>)"
  let ?cand = "many (NSet [Ch TAB]) p ?s []"
  let ?P = "\<lambda>st. rest st = []"
  have runs: "runs (seqs [Opt (Grp (Seq (Named ''name'' (Star (NSet [Ch TAB]))) (Atom (Lit SP)))),
                         Atom (Lit DASH), Opt (Atom (Lit SP)),
                         Opt (Named ''note'' (Plus Dot)), Atom (Lit NL), Eol])
               \<lparr>pos = p, rest = ?s, caps = []\<rparr> =
      concat (map ?H ?cand) @ runs ?T \<lparr>pos = p, rest = ?s, caps = []\<rparr>"
    by (simp add: comp_def map_concat concat_concat_map concat_map_concat runs_eta)
  let ?c0 = "\<lparr>pos = p + length y, rest = SP # DASH # x @ [NL], caps = []\<rparr>"
  have c0: "?c0 \<in> set ?cand" by (rule many_member [OF y])
  from loose_tail_greedy [OF x] obtain cp' where
    "greedy (Seq (Atom (Lit SP)) ?T) (SP # DASH # x @ [NL])
       [(''name'', take (pos ?c0 - p) ?s)] [] cp'"
    by blast
  then obtain p' ys where
    "?H ?c0 = \<lparr>pos = p', rest = [], caps = cp'\<rparr> # ys"
    unfolding greedy_def by (simp del: runs.simps seqs.simps) blast
  then have mem: "\<lparr>pos = p', rest = [], caps = cp'\<rparr> \<in> set (?H ?c0)" by simp
  have fin: "?P \<lparr>pos = p', rest = [], caps = cp'\<rparr>" by simp
  from find_first_chunk [of ?c0 ?cand _ ?H ?P "runs ?T \<lparr>pos = p, rest = ?s, caps = []\<rparr>", OF c0 mem fin]
  obtain pre c post z where
    cand: "?cand = pre @ c # post"
    and found: "find ?P (concat (map ?H ?cand) @ runs ?T \<lparr>pos = p, rest = ?s, caps = []\<rparr>) = Some z"
    and z: "z \<in> set (?H c)" and after: "?c0 \<in> set (c # post)"
    by blast
  from after many_order [OF cand] have le: "p + length y \<le> pos c" by fastforce
  have "c \<in> set ?cand" unfolding cand by simp
  from many_consumed [OF this] obtain w where
    w: "?s = w @ rest c" "pos c = p + length w" "caps c = []"
    by blast
  then have nm: "take (pos c - p) ?s = w" by simp
  from runs_den [OF z] obtain wd u where
    "(wd, u) \<in> den (Seq (Atom (Lit SP)) ?T)"
    and "consumed (c\<lparr>caps := (''name'', take (pos c - p) ?s) # caps c\<rparr>) wd u z"
    by blast
  with loose_tail_caps obtain v where "caps z = cap ''note'' v @ [(''name'', w)]"
    unfolding nm by (fastforce simp: consumed_def w(3))
  then have "group (caps z) ''name'' = Some w"
    by (simp add: group_def cap_def split: option.split)
  moreover from le w(2) have "length y \<le> length w" by simp
  ultimately show ?thesis using found unfolding runs by blast
qed

lemma dash_note_split:
  assumes v1: "\<forall>x. v1 = Some x \<longrightarrow> list_all (atom_ok (NSet [Ch TAB])) x"
    and v2: "\<forall>x. v2 = Some x \<longrightarrow> x \<noteq> [] \<and> list_all (atom_ok Dot) x"
    and d: "dash_in_note v2"
  shows "\<exists>y x. regtext v1 @ DASH # SP # field v2 @ [NL] = y @ SP # DASH # x @ [NL] \<and>
           list_all (atom_ok (NSet [Ch TAB])) y \<and> list_all (atom_ok Dot) x \<and>
           length (field v1) < length y"
proof -
  from d obtain f where f: "v2 = Some f" and d': "take 1 f = [DASH] \<or> sp_dash_ahead f"
    by (cases v2) (auto simp: dash_in_note_def)
  from v2 f have nl: "list_all (atom_ok Dot) f" by simp
  from v1 have t: "list_all (atom_ok (NSet [Ch TAB])) (field v1)"
    by (cases v1) (simp_all add: field_def)
  have pre: "regtext v1 @ [DASH] = field v1 @ (case v1 of None \<Rightarrow> [DASH] | Some x \<Rightarrow> [SP, DASH])"
    by (cases v1) (simp_all add: regtext_def field_def)
  let ?h = "field v1 @ (case v1 of None \<Rightarrow> [DASH] | Some x \<Rightarrow> [SP, DASH])"
  have h: "list_all (atom_ok (NSet [Ch TAB])) ?h" "length (field v1) < length ?h"
    using t by (cases v1; simp)+
  have line: "regtext v1 @ DASH # SP # field v2 @ [NL] = ?h @ SP # f @ [NL]"
    using pre by (simp add: f field_def)
  from d' show ?thesis
  proof
    assume "take 1 f = [DASH]"
    then obtain f' where f': "f = DASH # f'" by (cases f) auto
    with nl have "list_all (atom_ok Dot) f'" by simp
    moreover have "regtext v1 @ DASH # SP # field v2 @ [NL] = ?h @ SP # DASH # f' @ [NL]"
      unfolding line f' by simp
    ultimately show ?thesis using h by (intro exI [of _ ?h] exI [of _ f']) simp
  next
    assume "sp_dash_ahead f"
    from sp_dash_ahead_elim [OF this] obtain u w where
      uw: "f = u @ SP # DASH # w" and tu: "TAB \<notin> set u"
      by blast
    from nl uw have w: "list_all (atom_ok Dot) w" by simp
    from tu have "list_all (atom_ok (NSet [Ch TAB])) u" by (auto simp: list_all_iff)
    with h have "list_all (atom_ok (NSet [Ch TAB])) (?h @ SP # u)"
      "length (field v1) < length (?h @ SP # u)"
      by simp_all
    moreover have "regtext v1 @ DASH # SP # field v2 @ [NL] = (?h @ SP # u) @ SP # DASH # w @ [NL]"
      unfolding line uw by simp
    ultimately show ?thesis using w by (intro exI [of _ "?h @ SP # u"] exI [of _ w]) simp
  qed
qed

lemma name_of_caps: "group (cap ''note'' v2 @ cap ''name'' v1) ''name'' = v1"
  by (simp add: group_def cap_def split: option.split)

lemma group_strict_loose_differ:
  assumes "fullmatch GROUP_RE_STRICT line = Some m" and "dash_in_note (group m ''note'')"
  shows "\<exists>m'. fullmatch GROUP_RE_LOOSE line = Some m' \<and> group m' ''name'' \<noteq> group m ''name''"
proof -
  from fullmatch_den [OF assms(1)] obtain v1 v2 where
    line: "line = regtext v1 @ DASH # SP # field v2 @ [NL]"
    and m: "m = cap ''note'' v2 @ cap ''name'' v1"
    and v1: "\<forall>x. v1 = Some x \<longrightarrow> list_all (atom_ok (NSet [Ch TAB])) x"
    and v2: "\<forall>x. v2 = Some x \<longrightarrow> x \<noteq> [] \<and> list_all (atom_ok Dot) x"
    by (rule group_strict_den)
  from assms(2) have "dash_in_note v2" unfolding m note_of_caps .
  from dash_note_split [OF v1 v2 this] obtain y x where
    split: "line = y @ SP # DASH # x @ [NL]"
    and y: "list_all (atom_ok (NSet [Ch TAB])) y" and x: "list_all (atom_ok Dot) x"
    and len: "length (field v1) < length y"
    unfolding line by blast
  from loose_name_longer [OF y x, of 0] obtain z nm where
    z: "find (\<lambda>st. rest st = [])
            (runs (seqs [Opt (Grp (Seq (Named ''name'' (Star (NSet [Ch TAB]))) (Atom (Lit SP)))),
                         Atom (Lit DASH), Opt (Atom (Lit SP)),
                         Opt (Named ''note'' (Plus Dot)), Atom (Lit NL), Eol])
               \<lparr>pos = 0, rest = line, caps = []\<rparr>) = Some z"
    and nm: "group (caps z) ''name'' = Some nm" "length y \<le> length nm"
    unfolding split by blast
  from z have "fullmatch GROUP_RE_LOOSE line = Some (caps z)"
    unfolding GROUP_RE_LOOSE_def fullmatch_def seqs.simps(3) [of Bol] by simp
  moreover from nm len have "group (caps z) ''name'' \<noteq> group m ''name''"
    unfolding m name_of_caps by (cases v1) (auto simp: field_def)
  ultimately show ?thesis by blast
qed

lemma team_strict_loose_differ:
  assumes "fullmatch TEAM_RE_STRICT line = Some m" and "dash_in_note (group m ''note'')"
  shows "\<exists>m'. fullmatch TEAM_RE_LOOSE line = Some m' \<and> group m' ''name'' \<noteq> group m ''name''"
proof -
  from fullmatch_den [OF assms(1)] obtain v1 v2 where
    line: "line = TAB # regtext v1 @ DASH # SP # field v2 @ [NL]"
    and m: "m = cap ''note'' v2 @ cap ''name'' v1"
    and v1: "\<forall>x. v1 = Some x \<longrightarrow> list_all (atom_ok (NSet [Ch TAB])) x"
    and v2: "\<forall>x. v2 = Some x \<longrightarrow> x \<noteq> [] \<and> list_all (atom_ok Dot) x"
    by (rule team_strict_den)
  from assms(2) have "dash_in_note v2" unfolding m note_of_caps .
  from dash_note_split [OF v1 v2 this] obtain y x where
    split: "line = TAB # y @ SP # DASH # x @ [NL]"
    and y: "list_all (atom_ok (NSet [Ch TAB])) y" and x: "list_all (atom_ok Dot) x"
    and len: "length (field v1) < length y"
    unfolding line by blast
  from loose_name_longer [OF y x, of 1] obtain z nm where
    z: "find (\<lambda>st. rest st = [])
            (runs (seqs [Opt (Grp (Seq (Named ''name'' (Star (NSet [Ch TAB]))) (Atom (Lit SP)))),
                         Atom (Lit DASH), Opt (Atom (Lit SP)),
                         Opt (Named ''note'' (Plus Dot)), Atom (Lit NL), Eol])
               \<lparr>pos = 1, rest = y @ SP # DASH # x @ [NL], caps = []\<rparr>) = Some z"
    and nm: "group (caps z) ''name'' = Some nm" "length y \<le> length nm"
    by blast
  from z have "fullmatch TEAM_RE_LOOSE line = Some (caps z)"
    unfolding TEAM_RE_LOOSE_def fullmatch_def split seqs.simps(3) [of Bol] seqs.simps(3) [of "Atom (Lit TAB)"]
    by (simp add: one_def del: seqs.simps)
  moreover from nm len have "group (caps z) ''name'' \<noteq> group m ''name''"
    unfolding m name_of_caps by (cases v1) (auto simp: field_def)
  ultimately show ?thesis by blast
qed

section \<open>The kind of a line in the two modes\<close>

lemma classify_group_iff:
  "classify line strict = Some (KGroup, m) \<longleftrightarrow>
   fullmatch (if strict then GROUP_RE_STRICT else GROUP_RE_LOOSE) line = Some m"
  by (auto simp: classify_def split: option.splits)

lemma classify_team_iff:
  "classify line strict = Some (KTeam, m) \<longleftrightarrow>
   fullmatch (if strict then TEAM_RE_STRICT else TEAM_RE_LOOSE) line = Some m"
proof
  assume "classify line strict = Some (KTeam, m)"
  then show "fullmatch (if strict then TEAM_RE_STRICT else TEAM_RE_LOOSE) line = Some m"
    by (cases strict) (simp_all add: classify_def split: option.splits)
next
  assume t: "fullmatch (if strict then TEAM_RE_STRICT else TEAM_RE_LOOSE) line = Some m"
  then have "\<exists>s. line = TAB # s"
    by (cases strict) (auto dest: team_needs_tab)
  then obtain s where "line = TAB # s" by blast
  then have "fullmatch (if strict then GROUP_RE_STRICT else GROUP_RE_LOOSE) line = None"
    by (simp add: group_no_tab)
  with t show "classify line strict = Some (KTeam, m)"
    by (simp add: classify_def)
qed

lemma classify_player_iff:
  "classify line strict = Some (KPlayer, m) \<longleftrightarrow>
   fullmatch (if strict then PLAYER_RE_STRICT else PLAYER_RE_LOOSE) line = Some m"
proof
  assume "classify line strict = Some (KPlayer, m)"
  then show "fullmatch (if strict then PLAYER_RE_STRICT else PLAYER_RE_LOOSE) line = Some m"
    by (cases strict) (simp_all add: classify_def split: option.splits)
next
  assume p: "fullmatch (if strict then PLAYER_RE_STRICT else PLAYER_RE_LOOSE) line = Some m"
  then have "\<exists>s. line = TAB # TAB # s"
    by (cases strict) (auto dest: player_needs_tabs)
  then obtain s where "line = TAB # TAB # s" by blast
  then have "fullmatch (if strict then GROUP_RE_STRICT else GROUP_RE_LOOSE) line = None"
    and "fullmatch (if strict then TEAM_RE_STRICT else TEAM_RE_LOOSE) line = None"
    by (simp_all add: group_no_tab team_no_tabs)
  with p show "classify line strict = Some (KPlayer, m)"
    by (simp add: classify_def)
qed

lemma classify_strict_loose:
  assumes "classify line True = Some (k, m)"
  shows "\<exists>m'. classify line False = Some (k, m') \<and>
     (k = KPlayer \<or> \<not> dash_in_note (group m ''note'') \<longrightarrow> m' = m) \<and>
     (k \<noteq> KPlayer \<and> dash_in_note (group m ''note'') \<longrightarrow>
        group m' ''name'' \<noteq> group m ''name'')"
proof (cases k)
  case KGroup
  with assms have s: "fullmatch GROUP_RE_STRICT line = Some m" by (simp add: classify_group_iff)
  show ?thesis
  proof (cases "dash_in_note (group m ''note'')")
    case True
    from group_strict_loose_differ [OF s True] show ?thesis
      using KGroup True by (simp add: classify_group_iff)
  next
    case False
    from group_strict_loose_same [OF s False] show ?thesis
      using KGroup False by (simp add: classify_group_iff)
  qed
next
  case KTeam
  with assms have s: "fullmatch TEAM_RE_STRICT line = Some m" by (simp add: classify_team_iff)
  show ?thesis
  proof (cases "dash_in_note (group m ''note'')")
    case True
    from team_strict_loose_differ [OF s True] show ?thesis
      using KTeam True by (simp add: classify_team_iff)
  next
    case False
    from team_strict_loose_same [OF s False] show ?thesis
      using KTeam False by (simp add: classify_team_iff)
  qed
next
  case KPlayer
  with assms have "fullmatch PLAYER_RE_STRICT line = Some m" by (simp add: classify_player_iff)
  then have "fullmatch PLAYER_RE_LOOSE line = Some m" by (rule player_strict_loose_same)
  then show ?thesis using KPlayer by (simp add: classify_player_iff)
qed

lemma read_team_error_iff:
  "fst (read self line strict) = Inl (TeamWithoutGroup line) \<longleftrightarrow>
   (\<exists>m. classify line strict = Some (KTeam, m)) \<and> current_group self = None"
proof (cases line strict rule: classify_cases)
  case unknown
  then show ?thesis by (simp add: read_unknown error_kinds_distinct)
next
  case (group m)
  then show ?thesis by (simp add: read_group)
next
  case (team m)
  then show ?thesis
    by (cases "current_group self") (simp_all add: read_team_none read_team_some)
next
  case (player m)
  then show ?thesis
    by (cases "current_team self")
      (simp_all add: read_player_none read_player_some error_kinds_distinct)
qed

lemma read_player_error_iff:
  "fst (read self line strict) = Inl (PlayerWithoutTeam line) \<longleftrightarrow>
   (\<exists>m. classify line strict = Some (KPlayer, m)) \<and> current_team self = None"
proof (cases line strict rule: classify_cases)
  case unknown
  then show ?thesis by (simp add: read_unknown error_kinds_distinct)
next
  case (group m)
  then show ?thesis by (simp add: read_group)
next
  case (team m)
  then show ?thesis
    by (cases "current_group self")
      (simp_all add: read_team_none read_team_some error_kinds_distinct)
next
  case (player m)
  then show ?thesis
    by (cases "current_team self") (simp_all add: read_player_none read_player_some)
qed

section \<open>The rows that \<open>convert\<close> writes\<close>

lemma writerow_cells: "writerow out row = out @ [cells row]"
  by (simp add: writerow_def)

lemma convert_loop_rows:
  "\<exists>rows.
     snd (convert_loop r out lines strict) = out @ rows \<and> length rows \<le> length lines \<and>
     (\<forall>i < length rows. \<exists>e.
        fst (read (reads r (read_calls (take i lines) strict)) (lines ! i) strict) = Inr e \<and>
        rows ! i = cells (to_list e)) \<and>
     (fst (convert_loop r out lines strict) = Inr () \<longrightarrow> length rows = length lines) \<and>
     (\<forall>err. fst (convert_loop r out lines strict) = Inl err \<longrightarrow>
        length rows < length lines \<and>
        fst (read (reads r (read_calls (take (length rows) lines) strict)) (lines ! length rows) strict)
          = Inl err \<and>
        (\<forall>other. convert_loop r out (take (Suc (length rows)) lines @ other) strict =
           convert_loop r out lines strict))"
proof (induction lines arbitrary: r out)
  case Nil
  then show ?case by (simp add: read_calls_def)
next
  case (Cons l ls)
  obtain res r' where rd: "read r l strict = (res, r')" by (cases "read r l strict")
  show ?case
  proof (cases res)
    case (Inl e)
    with rd have "convert_loop r out (l # ls) strict = (Inl e, out)"
      and "\<And>other. convert_loop r out (l # other) strict = (Inl e, out)"
      by simp_all
    with rd Inl have "snd (convert_loop r out (l # ls) strict) = out @ [] \<and>
      length ([] :: ustr list list) \<le> length (l # ls) \<and>
      (\<forall>i < length ([] :: ustr list list). \<exists>e.
        fst (read (reads r (read_calls (take i (l # ls)) strict)) ((l # ls) ! i) strict) = Inr e \<and>
        [] ! i = cells (to_list e)) \<and>
      (fst (convert_loop r out (l # ls) strict) = Inr () \<longrightarrow> length ([] :: ustr list list) = length (l # ls)) \<and>
      (\<forall>err. fst (convert_loop r out (l # ls) strict) = Inl err \<longrightarrow>
        length ([] :: ustr list list) < length (l # ls) \<and>
        fst (read (reads r (read_calls (take (length ([] :: ustr list list)) (l # ls)) strict))
            ((l # ls) ! length ([] :: ustr list list)) strict) = Inl err \<and>
        (\<forall>other. convert_loop r out (take (Suc (length ([] :: ustr list list))) (l # ls) @ other) strict =
           convert_loop r out (l # ls) strict))"
      by (simp add: read_calls_def)
    then show ?thesis by blast
  next
    case (Inr ent)
    let ?c = "cells (to_list ent)"
    from rd Inr have step: "\<And>xs. convert_loop r out (l # xs) strict = convert_loop r' (out @ [?c]) xs strict"
      by (simp add: writerow_cells)
    from rd have r': "snd (read r l strict) = r'" by simp
    from Cons.IH [of r' "out @ [?c]"] obtain rows where
      out: "snd (convert_loop r' (out @ [?c]) ls strict) = (out @ [?c]) @ rows"
      and len: "length rows \<le> length ls"
      and each: "\<forall>i < length rows. \<exists>e.
        fst (read (reads r' (read_calls (take i ls) strict)) (ls ! i) strict) = Inr e \<and>
        rows ! i = cells (to_list e)"
      and ok: "fst (convert_loop r' (out @ [?c]) ls strict) = Inr () \<longrightarrow> length rows = length ls"
      and err: "\<forall>err. fst (convert_loop r' (out @ [?c]) ls strict) = Inl err \<longrightarrow>
        length rows < length ls \<and>
        fst (read (reads r' (read_calls (take (length rows) ls) strict)) (ls ! length rows) strict)
          = Inl err \<and>
        (\<forall>other. convert_loop r' (out @ [?c]) (take (Suc (length rows)) ls @ other) strict =
           convert_loop r' (out @ [?c]) ls strict)"
      by blast
    have shift: "\<And>xs. reads r (read_calls (l # xs) strict) = reads r' (read_calls xs strict)"
      by (simp add: read_calls_def r')
    have 1: "snd (convert_loop r out (l # ls) strict) = out @ (?c # rows)"
      using out by (simp add: step del: convert_loop.simps)
    have 2: "length (?c # rows) \<le> length (l # ls)" using len by simp
    have 3: "\<forall>i < length (?c # rows). \<exists>e.
        fst (read (reads r (read_calls (take i (l # ls)) strict)) ((l # ls) ! i) strict) = Inr e \<and>
        (?c # rows) ! i = cells (to_list e)"
    proof (intro allI impI)
      fix i assume i: "i < length (?c # rows)"
      show "\<exists>e. fst (read (reads r (read_calls (take i (l # ls)) strict)) ((l # ls) ! i) strict) = Inr e \<and>
        (?c # rows) ! i = cells (to_list e)"
      proof (cases i)
        case 0
        with rd Inr show ?thesis by (simp add: read_calls_def)
      next
        case (Suc j)
        with i each show ?thesis by (simp add: shift)
      qed
    qed
    have 4: "fst (convert_loop r out (l # ls) strict) = Inr () \<longrightarrow> length (?c # rows) = length (l # ls)"
      using ok by (simp add: step del: convert_loop.simps)
    have 5: "\<forall>err. fst (convert_loop r out (l # ls) strict) = Inl err \<longrightarrow>
        length (?c # rows) < length (l # ls) \<and>
        fst (read (reads r (read_calls (take (length (?c # rows)) (l # ls)) strict))
            ((l # ls) ! length (?c # rows)) strict) = Inl err \<and>
        (\<forall>other. convert_loop r out (take (Suc (length (?c # rows))) (l # ls) @ other) strict =
           convert_loop r out (l # ls) strict)"
      using err by (simp add: step shift del: convert_loop.simps)
    from 1 2 3 4 5 show ?thesis by blast
  qed
qed

section \<open>Row projection\<close>

text \<open>
  C5. Row projection is length-exact and prefix-structured: the row of a Group is exactly
  its two fields name and note; the row of a Team has exactly four fields and is the row of
  its parent Group followed by the Team's name and note; the row of a Player has exactly
  nine fields and is the row of its parent Team followed by its own five fields, the
  registration number, the name, the surname, the date of birth and the note.
\<close>

theorem to_list_exact_and_prefixed:
  "to_list (EGroup g) = [g_name g, g_note g] \<and> length (to_list (EGroup g)) = 2 \<and>
   to_list (ETeam t) = to_list (EGroup (t_group t)) @ [t_name t, t_note t] \<and>
   length (to_list (ETeam t)) = 4 \<and>
   to_list (EPlayer p) =
     to_list (ETeam (team p)) @
     [registration_number p, p_name p, surname p, date_of_birth p, p_note p] \<and>
   length (to_list (EPlayer p)) = 9"
  by (simp add: Group_to_list_def Team_to_list_def Player_to_list_def)

section \<open>The example of the README\<close>

text \<open>
  C4. Under strict mode the three lines of the example, a group line, a team line and a
  player line, each with its terminator, produce after the header exactly three rows: the
  two fields of the group; these and the two fields of the team; these four and the five
  fields of the player, with the name before the surname although the line gives the
  surname first. The conversion ends without an error.
\<close>

theorem convert_example:
  "convert [example_group_line, example_team_line, example_player_line] True =
     (Inr (),
      [Group_header @ Team_header @ Player_header,
       [str ''group_name'', str ''group_note''],
       [str ''group_name'', str ''group_note'', str ''team_name'', str ''team_note''],
       [str ''group_name'', str ''group_note'', str ''team_name'', str ''team_note'',
        str ''00001234'', str ''player_name'', str ''player_surname'', str ''01.01.1900'', str ''player_note'']])"
  by (simp add: convert_def example_reads,
      simp add: writerow_def cells_def Group_to_list_def Team_to_list_def Player_to_list_def
        example_group_def example_team_def example_player_def comp_def)

section \<open>The reader's state\<close>

text \<open>
  C7. In a reader whose current team is set, reading a line classified as Player returns
  the Player built from the captured fields with the current team as its parent, and leaves
  the reader as it was: the current group and the current team after the call are those
  before it.
\<close>

theorem read_player_keeps_reader:
  assumes "current_team self = Some ct" and "classify line strict = Some (KPlayer, m)"
  shows "read self line strict =
           (Inr (EPlayer
              \<lparr>registration_number = group m ''registration_number'', p_name = group m ''name'',
               surname = group m ''surname'', date_of_birth = group m ''date_of_birth'',
               p_note = group m ''note'', team = ct\<rparr>), self) \<and>
         current_group (snd (read self line strict)) = current_group self \<and>
         current_team (snd (read self line strict)) = current_team self"
  using assms by (simp add: read_player_some)

theorem read_player_keeps_reader_witness:
  "current_team example_reader = Some example_team \<and>
   classify example_player_line True = Some (KPlayer, example_player_match) \<and>
   read example_reader example_player_line True = (Inr (EPlayer example_player), example_reader)"
proof -
  have t: "current_team example_reader = Some example_team"
    by (simp add: example_reader_def)
  from read_player_keeps_reader [OF t example_player_line_kind] t example_player_line_kind
  show ?thesis
    by (simp add: example_player_def example_player_match_def group_def)
qed

text \<open>
  C10. A call of \<open>read\<close> that raises leaves the reader unchanged, whichever of the three
  errors it raises and in either mode: the current group and the current team after the
  call are those before it.
\<close>

theorem read_error_keeps_reader:
  assumes "fst (read self line strict) = Inl e"
  shows "snd (read self line strict) = self \<and>
         current_group (snd (read self line strict)) = current_group self \<and>
         current_team (snd (read self line strict)) = current_team self \<and>
         (e = UnknownLineType line \<or> e = TeamWithoutGroup line \<or> e = PlayerWithoutTeam line)"
  using read_error_unchanged [OF assms] read_error_kinds [OF assms] by simp

theorem read_error_keeps_reader_witness:
  "fst (read example_reader (str ''group_name'') False) = Inl (UnknownLineType (str ''group_name'')) \<and>
   snd (read example_reader (str ''group_name'') False) = example_reader"
proof -
  have "classify (str ''group_name'') False = None" by (simp add: pattern_eval)
  then have e: "fst (read example_reader (str ''group_name'') False) = Inl (UnknownLineType (str ''group_name''))"
    by (simp add: read_unknown)
  from read_error_keeps_reader [OF e] e show ?thesis by simp
qed

text \<open>
  C9. From a fresh reader, after any sequence of calls of \<open>read\<close>, returning or raising,
  in any modes, a current team is set only when a current group is set. Every call keeps
  this: a call that returns a Group sets it as the current group and clears the current
  team, and a call that returns a Team found the current group set, took it as the Team's
  parent and left it in place.
\<close>

theorem current_team_needs_current_group:
  "(current_team (reads DtbReader_init calls) \<noteq> None \<longrightarrow>
      current_group (reads DtbReader_init calls) \<noteq> None) \<and>
   ((current_team self \<noteq> None \<longrightarrow> current_group self \<noteq> None) \<longrightarrow>
      current_team (snd (read self line strict)) \<noteq> None \<longrightarrow>
      current_group (snd (read self line strict)) \<noteq> None) \<and>
   (fst (read self line strict) = Inr (EGroup g) \<longrightarrow>
      current_group (snd (read self line strict)) = Some g \<and>
      current_team (snd (read self line strict)) = None) \<and>
   (fst (read self line strict) = Inr (ETeam t) \<longrightarrow>
      current_group self = Some (t_group t) \<and>
      current_group (snd (read self line strict)) = Some (t_group t) \<and>
      current_team (snd (read self line strict)) = Some t)"
proof (intro conjI)
  show "current_team (reads DtbReader_init calls) \<noteq> None \<longrightarrow>
      current_group (reads DtbReader_init calls) \<noteq> None"
    by (rule reads_keeps_invariant) (simp add: DtbReader_init_def)
  show "(current_team self \<noteq> None \<longrightarrow> current_group self \<noteq> None) \<longrightarrow>
      current_team (snd (read self line strict)) \<noteq> None \<longrightarrow>
      current_group (snd (read self line strict)) \<noteq> None"
    using read_keeps_invariant by blast
  show "fst (read self line strict) = Inr (EGroup g) \<longrightarrow>
      current_group (snd (read self line strict)) = Some g \<and>
      current_team (snd (read self line strict)) = None"
    by (auto simp: read_classify split: option.splits kind.splits)
  show "fst (read self line strict) = Inr (ETeam t) \<longrightarrow>
      current_group self = Some (t_group t) \<and>
      current_group (snd (read self line strict)) = Some (t_group t) \<and>
      current_team (snd (read self line strict)) = Some t"
    by (auto simp: read_classify split: option.splits kind.splits)
qed

theorem current_team_needs_current_group_witness:
  "current_team (reads DtbReader_init [(example_group_line, True), (example_team_line, False)])
     \<noteq> None \<and>
   current_group (reads DtbReader_init [(example_group_line, True), (example_team_line, False)])
     \<noteq> None \<and>
   fst (read DtbReader_init example_group_line True) = Inr (EGroup example_group) \<and>
   current_team (snd (read DtbReader_init example_group_line True)) = None \<and>
   fst (read \<lparr>current_group = Some example_group, current_team = None\<rparr> example_team_line True)
     = Inr (ETeam example_team) \<and>
   current_team
     (snd (read \<lparr>current_group = Some example_group, current_team = None\<rparr> example_team_line True))
     = Some example_team"
proof -
  have t: "current_team
      (reads DtbReader_init [(example_group_line, True), (example_team_line, False)]) \<noteq> None"
    by (simp add: example_reads(1) read_team_some [OF example_team_line_kind_loose])
  have g: "fst (read DtbReader_init example_group_line True) = Inr (EGroup example_group)"
    by (simp add: example_reads)
  have m: "fst (read \<lparr>current_group = Some example_group, current_team = None\<rparr>
      example_team_line True) = Inr (ETeam example_team)"
    by (simp add: example_reads)
  from t g m
    current_team_needs_current_group
      [of "[(example_group_line, True), (example_team_line, False)]"
          DtbReader_init example_group_line True example_group example_team]
    current_team_needs_current_group
      [of "[]" "\<lparr>current_group = Some example_group, current_team = None\<rparr>"
          example_team_line True example_group example_team]
  show ?thesis by simp
qed

section \<open>The structural errors\<close>

text \<open>
  C1. In every reader and either mode: reading a line of the shape of a Team, one that
  the Team pattern of the mode matches, while no current group is set raises the error of
  a team without a group; reading a line of the shape of a Player while no current team is
  set raises the error of a player without a team; and, since reading a Group line clears
  the current team, a Player line read right after a Group line, with no Team line between
  them, raises the error of a player without a team, whatever the reader held before. Each
  of these calls leaves the reader as it found it.
\<close>

theorem structural_errors:
  "(fullmatch (if strict then TEAM_RE_STRICT else TEAM_RE_LOOSE) line = Some m \<and>
    current_group self = None \<longrightarrow>
      read self line strict = (Inl (TeamWithoutGroup line), self)) \<and>
   (fullmatch (if strict then PLAYER_RE_STRICT else PLAYER_RE_LOOSE) line = Some m \<and>
    current_team self = None \<longrightarrow>
      read self line strict = (Inl (PlayerWithoutTeam line), self)) \<and>
   (fullmatch (if gstrict then GROUP_RE_STRICT else GROUP_RE_LOOSE) gline = Some gm \<and>
    fullmatch (if strict then PLAYER_RE_STRICT else PLAYER_RE_LOOSE) line = Some m \<longrightarrow>
      current_team (snd (read self gline gstrict)) = None \<and>
      read (snd (read self gline gstrict)) line strict =
        (Inl (PlayerWithoutTeam line), snd (read self gline gstrict)))"
  unfolding classify_group_iff [symmetric] classify_team_iff [symmetric]
    classify_player_iff [symmetric]
  by (simp add: read_team_none read_player_none read_group)

theorem structural_errors_witness:
  "fullmatch TEAM_RE_STRICT example_team_line =
     Some [(''note'', str ''team_note''), (''name'', str ''team_name'')] \<and>
   current_group DtbReader_init = None \<and>
   read DtbReader_init example_team_line True =
     (Inl (TeamWithoutGroup example_team_line), DtbReader_init) \<and>
   fullmatch PLAYER_RE_STRICT example_player_line = Some example_player_match \<and>
   current_team DtbReader_init = None \<and>
   read DtbReader_init example_player_line True =
     (Inl (PlayerWithoutTeam example_player_line), DtbReader_init) \<and>
   fullmatch GROUP_RE_STRICT example_group_line =
     Some [(''note'', str ''group_note''), (''name'', str ''group_name'')] \<and>
   current_team example_reader \<noteq> None \<and>
   fst (read (snd (read example_reader example_group_line True)) example_player_line True) =
     Inl (PlayerWithoutTeam example_player_line)"
proof -
  have g: "current_group DtbReader_init = None" and t: "current_team DtbReader_init = None"
    by (simp_all add: DtbReader_init_def)
  have r: "current_team example_reader \<noteq> None"
    by (simp add: example_reader_def)
  have mt: "fullmatch (if True then TEAM_RE_STRICT else TEAM_RE_LOOSE) example_team_line =
      Some [(''note'', str ''team_note''), (''name'', str ''team_name'')]"
    using example_team_line_kind unfolding classify_team_iff .
  have mp: "fullmatch (if True then PLAYER_RE_STRICT else PLAYER_RE_LOOSE) example_player_line =
      Some example_player_match"
    using example_player_line_kind unfolding classify_player_iff .
  have mg: "fullmatch (if True then GROUP_RE_STRICT else GROUP_RE_LOOSE) example_group_line =
      Some [(''note'', str ''group_note''), (''name'', str ''group_name'')]"
    using example_group_line_kind unfolding classify_group_iff .
  from g t r mt mp mg
    structural_errors
      [of True example_team_line "[(''note'', str ''team_note''), (''name'', str ''team_name'')]"
          DtbReader_init]
    structural_errors [of True example_player_line example_player_match DtbReader_init]
    structural_errors
      [of True example_player_line example_player_match example_reader True example_group_line
          "[(''note'', str ''group_note''), (''name'', str ''group_name'')]"]
  show ?thesis by simp
qed

section \<open>Strict and loose mode\<close>

text \<open>
  C2, as the code has it. A line that strict mode classifies as Group, Team or Player is
  classified the same way by loose mode. The captured fields are the same in both modes,
  and so is the whole result of \<open>read\<close>, for every Player line, and for the Group and
  Team lines whose strict note neither starts with a dash nor holds a space and a dash
  with no tab before them (\<open>dash_in_note\<close>). For the other Group and Team lines loose
  mode captures another name than strict mode. A call that raises the error of a team
  without a group, or of a player without a team, in strict mode raises the same error in
  loose mode, on the same reader and line; loose mode raises them for further lines, which
  strict mode does not know.
\<close>

theorem loose_keeps_strict_kind:
  "(classify line True = Some (k, m) \<longrightarrow>
      (\<exists>m'. classify line False = Some (k, m') \<and>
         (k = KPlayer \<or> \<not> dash_in_note (group m ''note'') \<longrightarrow> m' = m) \<and>
         (k \<noteq> KPlayer \<and> dash_in_note (group m ''note'') \<longrightarrow>
            group m' ''name'' \<noteq> group m ''name''))) \<and>
   (classify line True = Some (k, m) \<and> (k = KPlayer \<or> \<not> dash_in_note (group m ''note'')) \<longrightarrow>
      read self line False = read self line True) \<and>
   (fst (read self line True) = Inl (TeamWithoutGroup line) \<longrightarrow>
      fst (read self line False) = Inl (TeamWithoutGroup line)) \<and>
   (fst (read self line True) = Inl (PlayerWithoutTeam line) \<longrightarrow>
      fst (read self line False) = Inl (PlayerWithoutTeam line))"
proof (intro conjI impI)
  assume "classify line True = Some (k, m)"
  then show "\<exists>m'. classify line False = Some (k, m') \<and>
         (k = KPlayer \<or> \<not> dash_in_note (group m ''note'') \<longrightarrow> m' = m) \<and>
         (k \<noteq> KPlayer \<and> dash_in_note (group m ''note'') \<longrightarrow>
            group m' ''name'' \<noteq> group m ''name'')"
    by (rule classify_strict_loose)
next
  assume "classify line True = Some (k, m) \<and> (k = KPlayer \<or> \<not> dash_in_note (group m ''note''))"
  then have s: "classify line True = Some (k, m)"
    and c: "k = KPlayer \<or> \<not> dash_in_note (group m ''note'')"
    by simp_all
  from classify_strict_loose [OF s] c have "classify line False = Some (k, m)" by blast
  with s show "read self line False = read self line True" by (simp add: read_classify)
next
  assume "fst (read self line True) = Inl (TeamWithoutGroup line)"
  then obtain m where "classify line True = Some (KTeam, m)" and g: "current_group self = None"
    unfolding read_team_error_iff by blast
  from classify_strict_loose [OF this(1)] g
  show "fst (read self line False) = Inl (TeamWithoutGroup line)"
    unfolding read_team_error_iff by blast
next
  assume "fst (read self line True) = Inl (PlayerWithoutTeam line)"
  then obtain m where "classify line True = Some (KPlayer, m)" and t: "current_team self = None"
    unfolding read_player_error_iff by blast
  from classify_strict_loose [OF this(1)] t
  show "fst (read self line False) = Inl (PlayerWithoutTeam line)"
    unfolding read_player_error_iff by blast
qed

theorem loose_keeps_strict_kind_witness:
  "classify example_group_line True =
     Some (KGroup, [(''note'', str ''group_note''), (''name'', str ''group_name'')]) \<and>
   classify example_group_line False =
     Some (KGroup, [(''note'', str ''group_note''), (''name'', str ''group_name'')]) \<and>
   read DtbReader_init example_group_line False =
     (Inr (EGroup example_group), \<lparr>current_group = Some example_group, current_team = None\<rparr>) \<and>
   classify example_team_line True =
     Some (KTeam, [(''note'', str ''team_note''), (''name'', str ''team_name'')]) \<and>
   classify example_team_line False =
     Some (KTeam, [(''note'', str ''team_note''), (''name'', str ''team_name'')]) \<and>
   read \<lparr>current_group = Some example_group, current_team = None\<rparr> example_team_line False =
     (Inr (ETeam example_team), example_reader) \<and>
   classify example_player_line True = Some (KPlayer, example_player_match) \<and>
   classify example_player_line False = Some (KPlayer, example_player_match) \<and>
   read example_reader example_player_line False = (Inr (EPlayer example_player), example_reader) \<and>
   classify (str ''a - b - c'' @ [NL]) True =
     Some (KGroup, [(''note'', str ''c''), (''name'', str ''a - b'')]) \<and>
   classify (str ''a - b - c'' @ [NL]) False =
     Some (KGroup, [(''note'', str ''c''), (''name'', str ''a - b'')]) \<and>
   classify (str ''a - b -c'' @ [NL]) True =
     Some (KGroup, [(''note'', str ''b -c''), (''name'', str ''a'')]) \<and>
   dash_in_note (Some (str ''b -c'')) \<and>
   (\<exists>m'. classify (str ''a - b -c'' @ [NL]) False = Some (KGroup, m') \<and>
      group m' ''name'' \<noteq> Some (str ''a'')) \<and>
   fst (read DtbReader_init example_team_line True) = Inl (TeamWithoutGroup example_team_line) \<and>
   fst (read DtbReader_init example_team_line False) = Inl (TeamWithoutGroup example_team_line) \<and>
   fst (read DtbReader_init example_player_line True) =
     Inl (PlayerWithoutTeam example_player_line) \<and>
   fst (read DtbReader_init example_player_line False) =
     Inl (PlayerWithoutTeam example_player_line)"
proof -
  have t: "fst (read DtbReader_init example_team_line True) =
      Inl (TeamWithoutGroup example_team_line)"
    using example_team_line_kind by (simp add: read_team_none DtbReader_init_def)
  have p: "fst (read DtbReader_init example_player_line True) =
      Inl (PlayerWithoutTeam example_player_line)"
    using example_player_line_kind by (simp add: read_player_none DtbReader_init_def)
  have n: "\<not> dash_in_note (Some (str ''group_note''))" "\<not> dash_in_note (Some (str ''team_note''))"
    "\<not> dash_in_note (Some (str ''c''))" "dash_in_note (Some (str ''b -c''))"
    by (simp_all add: dash_in_note_def str_def)
  have s: "classify (str ''a - b - c'' @ [NL]) True =
      Some (KGroup, [(''note'', str ''c''), (''name'', str ''a - b'')])"
    "classify (str ''a - b -c'' @ [NL]) True =
      Some (KGroup, [(''note'', str ''b -c''), (''name'', str ''a'')])"
    by (simp_all add: pattern_eval)
  from t p n s example_group_line_kind example_team_line_kind example_player_line_kind
    example_reads
    loose_keeps_strict_kind [of example_group_line KGroup
      "[(''note'', str ''group_note''), (''name'', str ''group_name'')]" DtbReader_init]
    loose_keeps_strict_kind [of example_team_line KTeam
      "[(''note'', str ''team_note''), (''name'', str ''team_name'')]"
      "\<lparr>current_group = Some example_group, current_team = None\<rparr>"]
    loose_keeps_strict_kind [of example_player_line KPlayer example_player_match example_reader]
    loose_keeps_strict_kind [of "str ''a - b - c'' @ [NL]" KGroup
      "[(''note'', str ''c''), (''name'', str ''a - b'')]" DtbReader_init]
    loose_keeps_strict_kind [of "str ''a - b -c'' @ [NL]" KGroup
      "[(''note'', str ''b -c''), (''name'', str ''a'')]" DtbReader_init]
    loose_keeps_strict_kind [of example_team_line KPlayer example_player_match DtbReader_init]
    loose_keeps_strict_kind [of example_player_line KPlayer example_player_match DtbReader_init]
  show ?thesis by (simp add: group_def)
qed

text \<open>
  Where C2 fails as the specification states it. The line \<open>a - b -c\<close> is a Group in both
  modes, with the name \<open>a\<close> and the note \<open>b -c\<close> in strict mode and the name \<open>a - b\<close>
  and the note \<open>c\<close> in loose mode. On a fresh reader the line of a tab and \<open>-x\<close> raises
  the error of a team without a group in loose mode and the error of an unknown line type
  in strict mode.
\<close>

theorem loose_changes_fields_and_errors:
  "fst (read DtbReader_init (str ''a - b -c'' @ [NL]) True) =
     Inr (EGroup \<lparr>g_name = Some (str ''a''), g_note = Some (str ''b -c'')\<rparr>) \<and>
   fst (read DtbReader_init (str ''a - b -c'' @ [NL]) False) =
     Inr (EGroup \<lparr>g_name = Some (str ''a - b''), g_note = Some (str ''c'')\<rparr>) \<and>
   fst (read DtbReader_init ([TAB] @ str ''-x'' @ [NL]) False) =
     Inl (TeamWithoutGroup ([TAB] @ str ''-x'' @ [NL])) \<and>
   fst (read DtbReader_init ([TAB] @ str ''-x'' @ [NL]) True) =
     Inl (UnknownLineType ([TAB] @ str ''-x'' @ [NL])) \<and>
   TeamWithoutGroup ([TAB] @ str ''-x'' @ [NL]) \<noteq> UnknownLineType ([TAB] @ str ''-x'' @ [NL])"
proof -
  have 1: "classify (str ''a - b -c'' @ [NL]) True = Some (KGroup, [(''note'', str ''b -c''), (''name'', str ''a'')])"
    by (simp add: pattern_eval)
  have 2: "classify (str ''a - b -c'' @ [NL]) False = Some (KGroup, [(''note'', str ''c''), (''name'', str ''a - b'')])"
    by (simp add: pattern_eval)
  have 3: "classify ([TAB] @ str ''-x'' @ [NL]) False = Some (KTeam, [(''note'', str ''x'')])"
    by (simp add: pattern_eval)
  have 4: "classify ([TAB] @ str ''-x'' @ [NL]) True = None"
    by (simp add: pattern_eval)
  from 1 2 3 4 show ?thesis
    by (simp add: read_classify group_def DtbReader_init_def error_kinds_distinct)
qed

section \<open>The shape of the captured fields\<close>

text \<open>
  C8. For every line classified as Player, in either mode: the captured registration
  number is unset or a text of decimal digits only; the captured date of birth is unset or
  a text of decimal digits and dots only; and the line is the two tabs, the registration
  number with the space that follows it, the dash and its space, the surname, a space, the
  name, the separators before the date of birth, the date of birth, the spaces and the
  separators before the note, the note and the terminator, in this order. So no captured
  value holds a separator that the pattern reads: each separator lies between the fields.
  The separators are a comma and a space in strict mode; in loose mode either may be
  absent. A surname holds no space and no comma, a name no comma, a note no terminator.
  The decimal digits are those that \<open>\d\<close> reads in a \<open>str\<close>: the digits \<open>0\<close> to \<open>9\<close> and
  the decimal digits of the other scripts of Unicode, such as the Arabic-Indic digits.
\<close>

theorem player_captures_shape:
  assumes "classify line strict = Some (KPlayer, m)"
  shows "(\<forall>x. group m ''registration_number'' = Some x \<longrightarrow> list_all is_digit x) \<and>
    (\<forall>x. group m ''date_of_birth'' = Some x \<longrightarrow>
       x \<noteq> [] \<and> list_all (\<lambda>c. is_digit c \<or> c = DOT) x) \<and>
    (\<forall>x. group m ''surname'' = Some x \<longrightarrow>
       x \<noteq> [] \<and> list_all (\<lambda>c. c \<noteq> SP \<and> c \<noteq> COMMA) x) \<and>
    (\<forall>x. group m ''name'' = Some x \<longrightarrow> x \<noteq> [] \<and> list_all (\<lambda>c. c \<noteq> COMMA) x) \<and>
    (\<forall>x. group m ''note'' = Some x \<longrightarrow> x \<noteq> [] \<and> list_all (\<lambda>c. c \<noteq> NL) x) \<and>
    (\<exists>c1 s1 k c2 s2.
       (c1 = [COMMA] \<or> \<not> strict \<and> c1 = []) \<and> (s1 = [SP] \<or> \<not> strict \<and> s1 = []) \<and>
       (c2 = [COMMA] \<or> \<not> strict \<and> c2 = []) \<and> (s2 = [SP] \<or> \<not> strict \<and> s2 = []) \<and>
       line = [TAB, TAB] @ regtext (group m ''registration_number'') @ [DASH, SP]
         @ field (group m ''surname'') @ [SP] @ field (group m ''name'') @ c1 @ s1
         @ field (group m ''date_of_birth'') @ replicate (Suc k) SP @ c2 @ s2
         @ field (group m ''note'') @ [NL])"
proof -
  from assms have fm: "fullmatch (if strict then PLAYER_RE_STRICT else PLAYER_RE_LOOSE) line = Some m"
    by (cases strict) (simp_all add: classify_def split: option.splits)
  have "\<exists>v1 v2 v3 v4 v5 k c1 s1 c2 s2.
    line = [TAB, TAB] @ regtext v1 @ [DASH, SP] @ field v2 @ [SP] @ field v3 @ c1 @ s1 @ field v4
        @ replicate (Suc k) SP @ c2 @ s2 @ field v5 @ [NL] \<and>
    m = cap ''note'' v5 @ cap ''date_of_birth'' v4 @ cap ''name'' v3 @ cap ''surname'' v2
        @ cap ''registration_number'' v1 \<and>
    (c1 = [COMMA] \<or> \<not> strict \<and> c1 = []) \<and> (s1 = [SP] \<or> \<not> strict \<and> s1 = []) \<and>
    (c2 = [COMMA] \<or> \<not> strict \<and> c2 = []) \<and> (s2 = [SP] \<or> \<not> strict \<and> s2 = []) \<and>
    (\<forall>x. v1 = Some x \<longrightarrow> list_all (atom_ok Digit) x) \<and>
    (\<forall>x. v2 = Some x \<longrightarrow> x \<noteq> [] \<and> list_all (atom_ok (NSet [Ch SP, Ch COMMA])) x) \<and>
    (\<forall>x. v3 = Some x \<longrightarrow> x \<noteq> [] \<and> list_all (atom_ok (NSet [Ch COMMA])) x) \<and>
    (\<forall>x. v4 = Some x \<longrightarrow> x \<noteq> [] \<and> list_all (atom_ok (CSet [Dig, Ch DOT])) x) \<and>
    (\<forall>x. v5 = Some x \<longrightarrow> x \<noteq> [] \<and> list_all (atom_ok Dot) x)"
  proof (cases strict)
    case True
    with fm have "(line, m) \<in> den PLAYER_RE_STRICT" by (simp add: fullmatch_den)
    then obtain v1 v2 v3 v4 v5 k where
        "line = [TAB, TAB] @ regtext v1 @ [DASH, SP] @ field v2 @ [SP] @ field v3 @ [COMMA] @ [SP] @ field v4
        @ replicate (Suc k) SP @ [COMMA] @ [SP] @ field v5 @ [NL]"
        "m = cap ''note'' v5 @ cap ''date_of_birth'' v4 @ cap ''name'' v3 @ cap ''surname'' v2
            @ cap ''registration_number'' v1"
        "\<forall>x. v1 = Some x \<longrightarrow> list_all (atom_ok Digit) x"
        "\<forall>x. v2 = Some x \<longrightarrow> x \<noteq> [] \<and> list_all (atom_ok (NSet [Ch SP, Ch COMMA])) x"
        "\<forall>x. v3 = Some x \<longrightarrow> x \<noteq> [] \<and> list_all (atom_ok (NSet [Ch COMMA])) x"
        "\<forall>x. v4 = Some x \<longrightarrow> x \<noteq> [] \<and> list_all (atom_ok (CSet [Dig, Ch DOT])) x"
        "\<forall>x. v5 = Some x \<longrightarrow> x \<noteq> [] \<and> list_all (atom_ok Dot) x"
      by (rule player_strict_den) simp
    then show ?thesis by blast
  next
    case False
    with fm have "(line, m) \<in> den PLAYER_RE_LOOSE" by (simp add: fullmatch_den)
    then obtain v1 v2 v3 v4 v5 k c1 s1 c2 s2 where
        "line = [TAB, TAB] @ regtext v1 @ [DASH, SP] @ field v2 @ [SP] @ field v3 @ c1 @ s1 @ field v4
            @ replicate (Suc k) SP @ c2 @ s2 @ field v5 @ [NL]"
        "m = cap ''note'' v5 @ cap ''date_of_birth'' v4 @ cap ''name'' v3 @ cap ''surname'' v2
            @ cap ''registration_number'' v1"
        "c1 = [] \<or> c1 = [COMMA]" "s1 = [] \<or> s1 = [SP]" "c2 = [] \<or> c2 = [COMMA]" "s2 = [] \<or> s2 = [SP]"
        "\<forall>x. v1 = Some x \<longrightarrow> list_all (atom_ok Digit) x"
        "\<forall>x. v2 = Some x \<longrightarrow> x \<noteq> [] \<and> list_all (atom_ok (NSet [Ch SP, Ch COMMA])) x"
        "\<forall>x. v3 = Some x \<longrightarrow> x \<noteq> [] \<and> list_all (atom_ok (NSet [Ch COMMA])) x"
        "\<forall>x. v4 = Some x \<longrightarrow> x \<noteq> [] \<and> list_all (atom_ok (CSet [Dig, Ch DOT])) x"
        "\<forall>x. v5 = Some x \<longrightarrow> x \<noteq> [] \<and> list_all (atom_ok Dot) x"
      by (rule player_loose_den)
    with False show ?thesis by blast
  qed
  then obtain v1 v2 v3 v4 v5 k c1 s1 c2 s2 where
    line: "line = [TAB, TAB] @ regtext v1 @ [DASH, SP] @ field v2 @ [SP] @ field v3 @ c1 @ s1 @ field v4
        @ replicate (Suc k) SP @ c2 @ s2 @ field v5 @ [NL]"
    and m: "m = cap ''note'' v5 @ cap ''date_of_birth'' v4 @ cap ''name'' v3 @ cap ''surname'' v2
        @ cap ''registration_number'' v1"
    and seps: "c1 = [COMMA] \<or> \<not> strict \<and> c1 = []" "s1 = [SP] \<or> \<not> strict \<and> s1 = []"
      "c2 = [COMMA] \<or> \<not> strict \<and> c2 = []" "s2 = [SP] \<or> \<not> strict \<and> s2 = []"
    and v: "\<forall>x. v1 = Some x \<longrightarrow> list_all is_digit x"
      "\<forall>x. v2 = Some x \<longrightarrow> x \<noteq> [] \<and> list_all (\<lambda>c. c \<noteq> SP \<and> c \<noteq> COMMA) x"
      "\<forall>x. v3 = Some x \<longrightarrow> x \<noteq> [] \<and> list_all (\<lambda>c. c \<noteq> COMMA) x"
      "\<forall>x. v4 = Some x \<longrightarrow> x \<noteq> [] \<and> list_all (\<lambda>c. is_digit c \<or> c = DOT) x"
      "\<forall>x. v5 = Some x \<longrightarrow> x \<noteq> [] \<and> list_all (\<lambda>c. c \<noteq> NL) x"
    unfolding atom_ok_classes by blast
  note g = player_names_distinct [OF m]
  from v seps line show ?thesis unfolding g by blast
qed

theorem player_captures_shape_witness:
  "classify example_player_line True = Some (KPlayer, example_player_match) \<and>
   group example_player_match ''registration_number'' = Some (str ''00001234'') \<and>
   list_all is_digit (str ''00001234'') \<and>
   group example_player_match ''date_of_birth'' = Some (str ''01.01.1900'') \<and>
   list_all (\<lambda>c. is_digit c \<or> c = DOT) (str ''01.01.1900'') \<and>
   classify ([TAB, TAB] @ str ''1 - s n,1.1 ,x'' @ [NL]) False =
     Some (KPlayer, [(''note'', str ''x''), (''date_of_birth'', str ''1.1''), (''name'', str ''n''),
                     (''surname'', str ''s''), (''registration_number'', str ''1'')]) \<and>
   list_all is_digit (str ''1'') \<and> list_all (\<lambda>c. is_digit c \<or> c = DOT) (str ''1.1'') \<and>
   classify ([TAB, TAB, 0x663] @ str '' - s n, 1.1 , x'' @ [NL]) True =
     Some (KPlayer, [(''note'', str ''x''), (''date_of_birth'', str ''1.1''), (''name'', str ''n''),
                     (''surname'', str ''s''), (''registration_number'', [0x663])]) \<and>
   list_all is_digit [0x663] \<and>
   classify ([TAB, TAB] @ str '' -  , 1'' @ [0x663] @ str '' , '' @ [NL]) False =
     Some (KPlayer, [(''date_of_birth'', [0x31, 0x663]), (''registration_number'', [])]) \<and>
   list_all (\<lambda>c. is_digit c \<or> c = DOT) [0x31, 0x663]"
proof -
  have r: "group example_player_match ''registration_number'' = Some (str ''00001234'')"
    and d: "group example_player_match ''date_of_birth'' = Some (str ''01.01.1900'')"
    by (simp_all add: example_player_match_def group_def)
  have l: "classify ([TAB, TAB] @ str ''1 - s n,1.1 ,x'' @ [NL]) False =
     Some (KPlayer, [(''note'', str ''x''), (''date_of_birth'', str ''1.1''), (''name'', str ''n''),
                     (''surname'', str ''s''), (''registration_number'', str ''1'')])"
    using player_samples(4) by (simp add: classify_player_iff)
  have a: "classify ([TAB, TAB, 0x663] @ str '' - s n, 1.1 , x'' @ [NL]) True =
     Some (KPlayer, [(''note'', str ''x''), (''date_of_birth'', str ''1.1''), (''name'', str ''n''),
                     (''surname'', str ''s''), (''registration_number'', [0x663])])"
    using digit_samples(1) by (simp add: classify_player_iff)
  have b: "classify ([TAB, TAB] @ str '' -  , 1'' @ [0x663] @ str '' , '' @ [NL]) False =
     Some (KPlayer, [(''date_of_birth'', [0x31, 0x663]), (''registration_number'', [])])"
    using digit_samples(2) by (simp add: classify_player_iff)
  from player_captures_shape [OF example_player_line_kind] player_captures_shape [OF l]
    player_captures_shape [OF a] player_captures_shape [OF b]
    r d l a b example_player_line_kind
  show ?thesis by (simp add: group_def)
qed

section \<open>The output of \<open>convert\<close>\<close>

lemma convert_rows:
  "\<exists>rows.
     snd (convert lines strict) = (Group_header @ Team_header @ Player_header) # rows \<and>
     length rows \<le> length lines \<and>
     (\<forall>i < length rows. \<exists>e.
        fst (read (reads DtbReader_init (read_calls (take i lines) strict)) (lines ! i) strict)
          = Inr e \<and>
        rows ! i = cells (to_list e)) \<and>
     (fst (convert lines strict) = Inr () \<longrightarrow> length rows = length lines) \<and>
     (\<forall>err. fst (convert lines strict) = Inl err \<longrightarrow>
        length rows < length lines \<and>
        fst (read (reads DtbReader_init (read_calls (take (length rows) lines) strict))
              (lines ! length rows) strict) = Inl err \<and>
        (\<forall>other. convert (take (Suc (length rows)) lines @ other) strict =
           convert lines strict))"
proof -
  have h: "writerow [] (map Some (Group_header @ Team_header @ Player_header)) =
      [Group_header @ Team_header @ Player_header]"
    by (simp add: writerow_def cells_def comp_def)
  show ?thesis
    using convert_loop_rows [of DtbReader_init "[Group_header @ Team_header @ Player_header]"
        lines strict]
    unfolding convert_def h by simp
qed

lemma cells_nth: "j < length row \<Longrightarrow> cells row ! j = (case row ! j of None \<Rightarrow> [] | Some s \<Rightarrow> s)"
  by (simp add: cells_def)

lemma length_cells_to_list:
  "length (cells (to_list e)) = (case e of EGroup g \<Rightarrow> 2 | ETeam t \<Rightarrow> 4 | EPlayer p \<Rightarrow> 9)"
  by (cases e) (simp_all add: cells_def Group_to_list_def Team_to_list_def Player_to_list_def)

lemma first_line_team:
  "classify ([TAB] @ str ''team - note'' @ [NL]) strict =
     Some (KTeam, [(''note'', str ''note''), (''name'', str ''team'')])"
proof (cases strict)
  case True
  have "classify ([TAB] @ str ''team - note'' @ [NL]) True =
      Some (KTeam, [(''note'', str ''note''), (''name'', str ''team'')])"
    by (simp add: pattern_eval)
  with True show ?thesis by simp
next
  case False
  have "classify ([TAB] @ str ''team - note'' @ [NL]) False =
      Some (KTeam, [(''note'', str ''note''), (''name'', str ''team'')])"
    by (simp add: pattern_eval)
  with False show ?thesis by simp
qed

lemma unterminated_line: "classify (str ''group_name'') True = None"
  by (simp add: pattern_eval)

lemma convert_unterminated:
  "convert [example_group_line, str ''group_name''] True =
     (Inl (UnknownLineType (str ''group_name'')),
      [Group_header @ Team_header @ Player_header, [str ''group_name'', str ''group_note'']])"
  "convert [example_group_line, str ''group_name'', example_team_line] True =
     (Inl (UnknownLineType (str ''group_name'')),
      [Group_header @ Team_header @ Player_header, [str ''group_name'', str ''group_note'']])"
  by (simp_all add: convert_def example_reads read_unknown [OF unterminated_line],
      simp_all add: writerow_def cells_def Group_to_list_def example_group_def comp_def)

lemma convert_group_only:
  "convert [example_group_line] True =
     (Inr (), [Group_header @ Team_header @ Player_header, [str ''group_name'', str ''group_note'']])"
  by (simp add: convert_def example_reads,
      simp add: writerow_def cells_def Group_to_list_def example_group_def comp_def)

text \<open>
  C6. For every input and mode, \<open>convert\<close> writes the header row of nine labels first,
  whatever the input, then one row for each line read, in the order of the input, the row
  of the entity that \<open>read\<close> returned for that line in the reader left by the lines
  before it. When no read fails there is a row for every line. When a read fails,
  \<open>convert\<close> raises that error, the rows written are those of the lines before the
  failing line, and the lines after it are not read: the result is the same whatever
  follows the failing line. An input whose first line is a tab and \<open>team - note\<close> fails
  with the error of a team without a group and leaves the header as the only row.
\<close>

theorem convert_header_rows_first_error:
  "length (Group_header @ Team_header @ Player_header) = 9 \<and>
   (\<exists>rows.
     snd (convert lines strict) = (Group_header @ Team_header @ Player_header) # rows \<and>
     length rows \<le> length lines \<and>
     (\<forall>i < length rows. \<exists>e.
        fst (read (reads DtbReader_init (read_calls (take i lines) strict)) (lines ! i) strict)
          = Inr e \<and>
        rows ! i = cells (to_list e)) \<and>
     (fst (convert lines strict) = Inr () \<longrightarrow> length rows = length lines) \<and>
     (\<forall>err. fst (convert lines strict) = Inl err \<longrightarrow>
        length rows < length lines \<and>
        fst (read (reads DtbReader_init (read_calls (take (length rows) lines) strict))
              (lines ! length rows) strict) = Inl err \<and>
        (\<forall>other. convert (take (Suc (length rows)) lines @ other) strict =
           convert lines strict))) \<and>
   convert (([TAB] @ str ''team - note'' @ [NL]) # lines) strict =
     (Inl (TeamWithoutGroup ([TAB] @ str ''team - note'' @ [NL])),
      [Group_header @ Team_header @ Player_header])"
proof (intro conjI)
  show "length (Group_header @ Team_header @ Player_header) = 9"
    by (simp add: Group_header_def Team_header_def Player_header_def)
  show "\<exists>rows.
     snd (convert lines strict) = (Group_header @ Team_header @ Player_header) # rows \<and>
     length rows \<le> length lines \<and>
     (\<forall>i < length rows. \<exists>e.
        fst (read (reads DtbReader_init (read_calls (take i lines) strict)) (lines ! i) strict)
          = Inr e \<and>
        rows ! i = cells (to_list e)) \<and>
     (fst (convert lines strict) = Inr () \<longrightarrow> length rows = length lines) \<and>
     (\<forall>err. fst (convert lines strict) = Inl err \<longrightarrow>
        length rows < length lines \<and>
        fst (read (reads DtbReader_init (read_calls (take (length rows) lines) strict))
              (lines ! length rows) strict) = Inl err \<and>
        (\<forall>other. convert (take (Suc (length rows)) lines @ other) strict =
           convert lines strict))"
    by (rule convert_rows)
  show "convert (([TAB] @ str ''team - note'' @ [NL]) # lines) strict =
     (Inl (TeamWithoutGroup ([TAB] @ str ''team - note'' @ [NL])),
      [Group_header @ Team_header @ Player_header])"
    using read_team_none [OF first_line_team, of DtbReader_init strict]
    by (simp add: convert_def DtbReader_init_def writerow_def cells_def comp_def)
qed

theorem convert_header_rows_first_error_witness:
  "convert [example_group_line, str ''group_name''] True =
     (Inl (UnknownLineType (str ''group_name'')),
      [Group_header @ Team_header @ Player_header, [str ''group_name'', str ''group_note'']]) \<and>
   fst (read (reads DtbReader_init (read_calls (take (Suc 0) [example_group_line, str ''group_name'']) True))
         ([example_group_line, str ''group_name''] ! Suc 0) True) = Inl (UnknownLineType (str ''group_name'')) \<and>
   convert (take (Suc (Suc 0)) [example_group_line, str ''group_name''] @ [example_team_line]) True =
     convert [example_group_line, str ''group_name''] True \<and>
   convert [[TAB] @ str ''team - note'' @ [NL], example_group_line] False =
     (Inl (TeamWithoutGroup ([TAB] @ str ''team - note'' @ [NL])),
      [Group_header @ Team_header @ Player_header])"
proof -
  let ?c = "[example_group_line, str ''group_name'']"
  note ev = convert_unterminated(1)
  from convert_header_rows_first_error [of ?c True] obtain rows where
    r: "snd (convert ?c True) = (Group_header @ Team_header @ Player_header) # rows"
    and e: "\<forall>err. fst (convert ?c True) = Inl err \<longrightarrow>
        length rows < length ?c \<and>
        fst (read (reads DtbReader_init (read_calls (take (length rows) ?c) True))
              (?c ! length rows) True) = Inl err \<and>
        (\<forall>other. convert (take (Suc (length rows)) ?c @ other) True = convert ?c True)"
    by blast
  from r ev have rows: "rows = [[str ''group_name'', str ''group_note'']]" by simp
  from e ev have "fst (read (reads DtbReader_init (read_calls (take (length rows) ?c) True))
              (?c ! length rows) True) = Inl (UnknownLineType (str ''group_name'')) \<and>
        (\<forall>other. convert (take (Suc (length rows)) ?c @ other) True = convert ?c True)"
    by simp
  then have "fst (read (reads DtbReader_init (read_calls (take (Suc 0) ?c) True))
              (?c ! Suc 0) True) = Inl (UnknownLineType (str ''group_name''))"
    and "convert (take (Suc (Suc 0)) ?c @ [example_team_line]) True = convert ?c True"
    unfolding rows by simp_all
  with ev convert_header_rows_first_error [of "[example_group_line]" False]
  show ?thesis by simp
qed

text \<open>
  C3, as the code has it. Every data row that \<open>convert\<close> writes holds exactly the fields
  of the row of its entity, one cell for each: two cells for a Group, four for a Team,
  nine for a Player. A field that is unset is written as an empty cell, and a row is not
  padded: only the row of a Player takes all nine columns of the header.
\<close>

theorem data_row_cells:
  assumes "Suc i < length (snd (convert lines strict))"
  shows "\<exists>e.
    fst (read (reads DtbReader_init (read_calls (take i lines) strict)) (lines ! i) strict) = Inr e \<and>
    snd (convert lines strict) ! Suc i = cells (to_list e) \<and>
    length (snd (convert lines strict) ! Suc i) =
      (case e of EGroup g \<Rightarrow> 2 | ETeam t \<Rightarrow> 4 | EPlayer p \<Rightarrow> 9) \<and>
    (\<forall>j < length (to_list e).
       snd (convert lines strict) ! Suc i ! j = (case to_list e ! j of None \<Rightarrow> [] | Some s \<Rightarrow> s))"
proof -
  from convert_rows [of lines strict] obtain rows where
    r: "snd (convert lines strict) = (Group_header @ Team_header @ Player_header) # rows"
    and each: "\<forall>i < length rows. \<exists>e.
        fst (read (reads DtbReader_init (read_calls (take i lines) strict)) (lines ! i) strict)
          = Inr e \<and>
        rows ! i = cells (to_list e)"
    by blast
  from assms r have "i < length rows" by simp
  with each obtain e where
    e: "fst (read (reads DtbReader_init (read_calls (take i lines) strict)) (lines ! i) strict) = Inr e"
    and c: "rows ! i = cells (to_list e)"
    by blast
  from r c have row: "snd (convert lines strict) ! Suc i = cells (to_list e)" by simp
  have "\<forall>j < length (to_list e).
      cells (to_list e) ! j = (case to_list e ! j of None \<Rightarrow> [] | Some s \<Rightarrow> s)"
    by (simp add: cells_nth)
  with e row length_cells_to_list [of e] show ?thesis by auto
qed

theorem data_row_cells_witness:
  "Suc 0 < length (snd (convert [example_group_line] True)) \<and>
   fst (read (reads DtbReader_init (read_calls (take 0 [example_group_line]) True))
         ([example_group_line] ! 0) True) = Inr (EGroup example_group) \<and>
   snd (convert [example_group_line] True) ! Suc 0 = cells (to_list (EGroup example_group)) \<and>
   length (snd (convert [example_group_line] True) ! Suc 0) = 2"
proof -
  have h: "Suc 0 < length (snd (convert [example_group_line] True))"
    by (simp add: convert_group_only)
  have g: "fst (read (reads DtbReader_init (read_calls (take 0 [example_group_line]) True))
         ([example_group_line] ! 0) True) = Inr (EGroup example_group)"
    by (simp add: example_reads read_calls_def)
  from data_row_cells [OF h] g h show ?thesis by auto
qed

text \<open>
  Where C3 fails as the specification states it: the row written for the Group line of
  the example has the two cells of the Group and no more, and the row written for its Team
  line has four cells; neither takes nine columns.
\<close>

theorem group_row_is_not_padded:
  "snd (convert [example_group_line] True) ! 1 = [str ''group_name'', str ''group_note''] \<and>
   length (snd (convert [example_group_line] True) ! 1) \<noteq> 9 \<and>
   snd (convert [example_group_line, example_team_line] True) ! 2 =
     [str ''group_name'', str ''group_note'', str ''team_name'', str ''team_note''] \<and>
   length (snd (convert [example_group_line, example_team_line] True) ! 2) \<noteq> 9"
proof -
  have "convert [example_group_line, example_team_line] True =
     (Inr (), [Group_header @ Team_header @ Player_header, [str ''group_name'', str ''group_note''],
       [str ''group_name'', str ''group_note'', str ''team_name'', str ''team_note'']])"
    by (simp add: convert_def example_reads,
        simp add: writerow_def cells_def Group_to_list_def Team_to_list_def example_group_def
          example_team_def comp_def)
  then show ?thesis by (simp add: convert_group_only)
qed

end
